theory Spec2Isabelle
  imports Complex_Main "HOL-Library.Monad_Syntax"
begin

section \<open>The HIP kernels of the rocsparse linear-solver backend (hipKernels.cpp)\<close>

text \<open>
  The file \<^verbatim>\<open>opm/simulators/linalg/bda/rocm/hipKernels.cpp\<close> holds seven device
  kernels and the six host functions of \<^verbatim>\<open>HipKernels\<close> that launch them. The
  embedding below follows the file function by function.

  \<^item> A \<^verbatim>\<open>double\<close> is idealised as a \<^typ>\<open>real\<close>: rounding is not modelled.
  \<^item> An \<^verbatim>\<open>unsigned int\<close> is a \<^typ>\<open>nat\<close> reduced modulo \<open>2^32\<close> after every
    operation, an \<^verbatim>\<open>int\<close> is an \<^typ>\<open>int\<close>, and the conversions between the two
    are written out.
  \<^item> A device array is a list. The pointers of the source carry no length; reading or
    writing outside the list is undefined behaviour and is the value \<open>None\<close>.
  \<^item> Distinct arrays are distinct lists: no two arguments alias.
  \<^item> A loop is the combinator \<open>while_loop\<close>, whose value is \<open>None\<close> also when the
    loop does not end.
\<close>

subsection \<open>Machine integers and arrays\<close>

type_synonym vec = "real list"

definition wrap32 :: "nat \<Rightarrow> nat" where
  "wrap32 n = n mod 4294967296"

definition u32 :: "int \<Rightarrow> nat" where
  "u32 i = nat (i mod 4294967296)"

definition s32 :: "nat \<Rightarrow> int" where
  "s32 n = (if n mod 4294967296 < 2147483648 then int (n mod 4294967296)
            else int (n mod 4294967296) - 4294967296)"

definition rd :: "'a list \<Rightarrow> nat \<Rightarrow> 'a option" where
  "rd xs i = (if i < length xs then Some (xs ! i) else None)"

definition wr :: "'a list \<Rightarrow> nat \<Rightarrow> 'a \<Rightarrow> 'a list option" where
  "wr xs i v = (if i < length xs then Some (xs[i := v]) else None)"

definition rdi :: "'a list \<Rightarrow> int \<Rightarrow> 'a option" where
  "rdi xs i = (if 0 \<le> i then rd xs (nat i) else None)"

definition wri :: "'a list \<Rightarrow> int \<Rightarrow> 'a \<Rightarrow> 'a list option" where
  "wri xs i v = (if 0 \<le> i then wr xs (nat i) v else None)"

subsection \<open>Loops, threads and launches\<close>

partial_function (option) while_loop ::
  "('s \<Rightarrow> bool) \<Rightarrow> ('s \<Rightarrow> 's option) \<Rightarrow> 's \<Rightarrow> 's option" where
  "while_loop c f s = (if c s then Option.bind (f s) (while_loop c f) else Some s)"

text \<open>
  The threads of a launch that do not synchronise are run one after the other, in the
  order of their block and thread index; the first undefined behaviour ends the run.
\<close>

fun run_threads :: "('t \<Rightarrow> 's \<Rightarrow> 's option) \<Rightarrow> 't list \<Rightarrow> 's \<Rightarrow> 's option" where
  "run_threads f [] s = Some s"
| "run_threads f (t # ts) s = Option.bind (f t s) (run_threads f ts)"

text \<open>The pairs \<open>(blockIdx.x, threadIdx.x)\<close> of a launch \<^verbatim>\<open><<<dim3(gridDim), dim3(blockDim)>>>\<close>.\<close>

definition grid :: "nat \<Rightarrow> nat \<Rightarrow> (nat \<times> nat) list" where
  "grid gridDim blockDim = List.product [0..<gridDim] [0..<blockDim]"

text \<open>\<^verbatim>\<open>blockDim.x * blockIdx.x + threadIdx.x\<close>, in unsigned arithmetic.\<close>

definition global_id :: "nat \<Rightarrow> nat \<Rightarrow> nat \<Rightarrow> nat" where
  "global_id blockDim blockIdx threadIdx = wrap32 (wrap32 (blockDim * blockIdx) + threadIdx)"

subsection \<open>The host side\<close>

text \<open>
  A host function completes with the output array, throws \<^verbatim>\<open>std::logic_error\<close> with
  a message (the array is then as it was at the throw), or has undefined behaviour.
\<close>

datatype 'm outcome = Completed 'm | Raised string 'm | Undefined

fun completed :: "'m option \<Rightarrow> 'm outcome" where
  "completed None = Undefined"
| "completed (Some m) = Completed m"

text \<open>
  Modelled from the spec: \<^verbatim>\<open>Accelerator::ceilDivision\<close> is declared in Misc.hpp, which is
  not among the sources. It is taken to be the quotient of its two unsigned arguments,
  rounded up: the number of groups of \<open>B\<close> needed to cover \<open>A\<close> items.
\<close>

definition ceilDivision :: "nat \<Rightarrow> nat \<Rightarrow> nat" where
  "ceilDivision A B = A div B + (if A mod B > 0 then 1 else 0)"

subsection \<open>vmul: out += alpha * in1 * in2, element-wise\<close>

definition vmul_k_thread ::
  "nat \<Rightarrow> nat \<Rightarrow> nat \<Rightarrow> nat \<Rightarrow> real \<Rightarrow> vec \<Rightarrow> vec \<Rightarrow> int \<Rightarrow> vec \<Rightarrow> vec option" where
  "vmul_k_thread gridDim blockDim blockIdx threadIdx alpha in1 in2 N out =
    (let NUM_THREADS = gridDim;
         idx = s32 (global_id blockDim blockIdx threadIdx)
     in map_option snd
          (while_loop (\<lambda>(idx, out). idx < N)
             (\<lambda>(idx, out). do {
                 a \<leftarrow> rdi in1 idx;
                 b \<leftarrow> rdi in2 idx;
                 c \<leftarrow> rdi out idx;
                 out' \<leftarrow> wri out idx (c + alpha * a * b);
                 Some (s32 (wrap32 (u32 idx + NUM_THREADS)), out') })
             (idx, out)))"

definition vmul_k :: "nat \<Rightarrow> nat \<Rightarrow> real \<Rightarrow> vec \<Rightarrow> vec \<Rightarrow> vec \<Rightarrow> int \<Rightarrow> vec option" where
  "vmul_k gridDim blockDim alpha in1 in2 out N =
     run_threads (\<lambda>(b, t). vmul_k_thread gridDim blockDim b t alpha in1 in2 N)
       (grid gridDim blockDim) out"

text \<open>
  The host function. \<open>hip\<close> says whether the file was compiled with \<^verbatim>\<open>__HIP__\<close>
  defined. The timing line written to the log at verbosity 4 is left out.
\<close>

definition vmul :: "bool \<Rightarrow> real \<Rightarrow> vec \<Rightarrow> vec \<Rightarrow> vec \<Rightarrow> int \<Rightarrow> vec outcome" where
  "vmul hip alpha in1 in2 out N =
    (if hip then
       (let blockDim = 64;
            blocks = ceilDivision (u32 N) blockDim;
            gridDim = wrap32 (blocks * blockDim)
        in completed (vmul_k gridDim blockDim alpha in1 in2 out N))
     else Raised ''Error vmul for rocsparse only supported when compiling with hipcc'' out)"

subsection \<open>full_to_pressure_restriction: blocked vector to scalar vector, with pressure weights\<close>

definition full_to_pressure_restriction_k_thread ::
  "nat \<Rightarrow> nat \<Rightarrow> nat \<Rightarrow> nat \<Rightarrow> vec \<Rightarrow> vec \<Rightarrow> nat \<Rightarrow> vec \<Rightarrow> vec option" where
  "full_to_pressure_restriction_k_thread gridDim blockDim blockIdx threadIdx fine_y weights Nb coarse_y =
    (let NUM_THREADS = gridDim;
         block_size = 3;
         target_block_row = global_id blockDim blockIdx threadIdx
     in map_option snd
          (while_loop (\<lambda>(target_block_row, coarse_y). target_block_row < Nb)
             (\<lambda>(target_block_row, coarse_y). do {
                 let idx = wrap32 (block_size * target_block_row);
                 (i, sum) \<leftarrow> while_loop (\<lambda>(i, sum). i < block_size)
                    (\<lambda>(i, sum). do {
                        f \<leftarrow> rd fine_y (wrap32 (idx + i));
                        w \<leftarrow> rd weights (wrap32 (idx + i));
                        Some (wrap32 (i + 1), sum + f * w) })
                    (0, 0);
                 coarse_y' \<leftarrow> wr coarse_y target_block_row sum;
                 Some (wrap32 (target_block_row + NUM_THREADS), coarse_y') })
             (target_block_row, coarse_y)))"

definition full_to_pressure_restriction_k ::
  "nat \<Rightarrow> nat \<Rightarrow> vec \<Rightarrow> vec \<Rightarrow> vec \<Rightarrow> nat \<Rightarrow> vec option" where
  "full_to_pressure_restriction_k gridDim blockDim fine_y weights coarse_y Nb =
     run_threads (\<lambda>(b, t). full_to_pressure_restriction_k_thread gridDim blockDim b t fine_y weights Nb)
       (grid gridDim blockDim) coarse_y"

definition full_to_pressure_restriction :: "bool \<Rightarrow> vec \<Rightarrow> vec \<Rightarrow> vec \<Rightarrow> int \<Rightarrow> vec outcome" where
  "full_to_pressure_restriction hip fine_y weights coarse_y Nb =
    (if hip then
       (let blockDim = 64;
            blocks = ceilDivision (u32 Nb) blockDim;
            gridDim = wrap32 (blocks * blockDim)
        in completed (full_to_pressure_restriction_k gridDim blockDim fine_y weights coarse_y (u32 Nb)))
     else Raised ''Error full_to_pressure_restriction for rocsparse only supported when compiling with hipcc''
            coarse_y)"

text \<open>The value the loop over \<open>i\<close> leaves in \<open>sum\<close> for a block row.\<close>

definition restricted :: "vec \<Rightarrow> vec \<Rightarrow> nat \<Rightarrow> real" where
  "restricted fine_y weights row =
     0 + fine_y ! (3 * row) * weights ! (3 * row)
       + fine_y ! (3 * row + 1) * weights ! (3 * row + 1)
       + fine_y ! (3 * row + 2) * weights ! (3 * row + 2)"

text \<open>
  The same value with the indices as the kernel computes them, in unsigned 32-bit
  arithmetic: they differ from \<open>3 * row + i\<close> once \<open>3 * row + i\<close> reaches \<open>2^32\<close>.
\<close>

definition restricted_wrapped :: "vec \<Rightarrow> vec \<Rightarrow> nat \<Rightarrow> real" where
  "restricted_wrapped fine_y weights row =
     0 + fine_y ! wrap32 (wrap32 (3 * row) + 0) * weights ! wrap32 (wrap32 (3 * row) + 0)
       + fine_y ! wrap32 (wrap32 (3 * row) + 1) * weights ! wrap32 (wrap32 (3 * row) + 1)
       + fine_y ! wrap32 (wrap32 (3 * row) + 2) * weights ! wrap32 (wrap32 (3 * row) + 2)"

subsection \<open>add_coarse_pressure_correction: the coarse pressure solution added to the fine solution\<close>

definition add_coarse_pressure_correction_k_thread ::
  "nat \<Rightarrow> nat \<Rightarrow> nat \<Rightarrow> nat \<Rightarrow> vec \<Rightarrow> nat \<Rightarrow> nat \<Rightarrow> vec \<Rightarrow> vec option" where
  "add_coarse_pressure_correction_k_thread gridDim blockDim blockIdx threadIdx coarse_x pressure_idx Nb fine_x =
    (let NUM_THREADS = gridDim;
         block_size = 3;
         target_block_row = global_id blockDim blockIdx threadIdx
     in map_option snd
          (while_loop (\<lambda>(target_block_row, fine_x). target_block_row < Nb)
             (\<lambda>(target_block_row, fine_x). do {
                 let j = wrap32 (wrap32 (target_block_row * block_size) + pressure_idx);
                 c \<leftarrow> rd coarse_x target_block_row;
                 f \<leftarrow> rd fine_x j;
                 fine_x' \<leftarrow> wr fine_x j (f + c);
                 Some (wrap32 (target_block_row + NUM_THREADS), fine_x') })
             (target_block_row, fine_x)))"

definition add_coarse_pressure_correction_k ::
  "nat \<Rightarrow> nat \<Rightarrow> vec \<Rightarrow> vec \<Rightarrow> nat \<Rightarrow> nat \<Rightarrow> vec option" where
  "add_coarse_pressure_correction_k gridDim blockDim coarse_x fine_x pressure_idx Nb =
     run_threads (\<lambda>(b, t). add_coarse_pressure_correction_k_thread gridDim blockDim b t coarse_x pressure_idx Nb)
       (grid gridDim blockDim) fine_x"

definition add_coarse_pressure_correction :: "bool \<Rightarrow> vec \<Rightarrow> vec \<Rightarrow> int \<Rightarrow> int \<Rightarrow> vec outcome" where
  "add_coarse_pressure_correction hip coarse_x fine_x pressure_idx Nb =
    (if hip then
       (let blockDim = 64;
            blocks = ceilDivision (u32 Nb) blockDim;
            gridDim = wrap32 (blocks * blockDim)
        in completed (add_coarse_pressure_correction_k gridDim blockDim coarse_x fine_x
                        (u32 pressure_idx) (u32 Nb)))
     else Raised ''Error add_coarse_pressure_correction for rocsparse only supported when compiling with hipcc''
            fine_x)"

subsection \<open>prolongate_vector: prolongation during the amg cycle\<close>

definition prolongate_vector_k_thread ::
  "nat \<Rightarrow> nat \<Rightarrow> nat \<Rightarrow> nat \<Rightarrow> vec \<Rightarrow> int list \<Rightarrow> nat \<Rightarrow> vec \<Rightarrow> vec option" where
  "prolongate_vector_k_thread gridDim blockDim blockIdx threadIdx inp cols N out =
    (let NUM_THREADS = gridDim;
         row = global_id blockDim blockIdx threadIdx
     in map_option snd
          (while_loop (\<lambda>(row, out). row < N)
             (\<lambda>(row, out). do {
                 col \<leftarrow> rd cols row;
                 v \<leftarrow> rdi inp col;
                 c \<leftarrow> rd out row;
                 out' \<leftarrow> wr out row (c + v);
                 Some (wrap32 (row + NUM_THREADS), out') })
             (row, out)))"

definition prolongate_vector_k ::
  "nat \<Rightarrow> nat \<Rightarrow> vec \<Rightarrow> vec \<Rightarrow> int list \<Rightarrow> nat \<Rightarrow> vec option" where
  "prolongate_vector_k gridDim blockDim inp out cols N =
     run_threads (\<lambda>(b, t). prolongate_vector_k_thread gridDim blockDim b t inp cols N)
       (grid gridDim blockDim) out"

definition prolongate_vector :: "bool \<Rightarrow> vec \<Rightarrow> vec \<Rightarrow> int list \<Rightarrow> int \<Rightarrow> vec outcome" where
  "prolongate_vector hip inp out cols N =
    (if hip then
       (let blockDim = 64;
            blocks = ceilDivision (u32 N) blockDim;
            gridDim = wrap32 (blocks * blockDim)
        in completed (prolongate_vector_k gridDim blockDim inp out cols (u32 N)))
     else Raised ''Error prolongate_vector for rocsparse only supported when compiling with hipcc''
            out)"

subsection \<open>Thread groups with shared memory\<close>

text \<open>
  The kernels below synchronise the threads of a group with \<^verbatim>\<open>__syncthreads()\<close> and
  exchange values through the shared array \<open>tmp\<close>. A group is modelled in lockstep: a
  statement is executed by all its threads before the next statement, and the local
  variables of the threads are lists indexed by \<open>threadIdx.x\<close>. In a statement executed
  in lockstep every thread reads the memory as it was before the statement, and the
  writes take effect in the order of the thread index. A barrier that only some threads
  of the group reach is undefined behaviour. The groups of a launch are run one after
  the other; each has a shared array of its own, \<open>shm\<close> doubles long, zero at the start.
\<close>

definition lockstep :: "'t list \<Rightarrow> ('t \<Rightarrow> 'm \<Rightarrow> 'm \<Rightarrow> 'm option) \<Rightarrow> 'm \<Rightarrow> 'm option" where
  "lockstep ts stmt m = run_threads (\<lambda>t cur. stmt t m cur) ts m"

subsection \<open>residual_blocked_k: res = rhs - mat * x, for blocks\<close>

text \<open>
  The kernel is given in four parts: what a thread accumulates in \<open>local_out\<close> for its
  block row, the reduction of \<open>tmp\<close> in shared memory, one pass of the loop over the block
  rows, and the kernel with its thread-local constants. A thread is named by its
  \<open>threadIdx.x\<close>, here \<open>idx_t\<close>; \<open>lane\<close>, \<open>c\<close> and \<open>r\<close> are computed from it as in the source.
\<close>

definition blocked_local_out ::
  "nat \<Rightarrow> nat \<Rightarrow> vec \<Rightarrow> int list \<Rightarrow> int list \<Rightarrow> vec \<Rightarrow> nat \<Rightarrow> nat \<Rightarrow> real option" where
  "blocked_local_out warpsize bs vals cols rows x target_block_row idx_t =
    (let num_active_threads = wrap32 (wrap32 (warpsize div bs div bs * bs) * bs);
         num_blocks_per_warp = warpsize div bs div bs;
         lane = idx_t mod warpsize;
         c = (lane div bs) mod bs;
         r = lane mod bs
     in do {
       first_block \<leftarrow> map_option u32 (rd rows target_block_row);
       last_block \<leftarrow> map_option u32 (rd rows (wrap32 (target_block_row + 1)));
       let block = wrap32 (first_block + lane div wrap32 (bs * bs));
       if lane < num_active_threads
       then map_option snd
         (while_loop (\<lambda>(block, local_out). block < last_block)
            (\<lambda>(block, local_out). do {
                col \<leftarrow> rd cols block;
                x_elem \<leftarrow> rd x (wrap32 (wrap32 (u32 col * bs) + c));
                A_elem \<leftarrow> rd vals (wrap32 (wrap32 (wrap32 (wrap32 (block * bs) * bs) + c)
                                     + wrap32 (r * bs)));
                Some (wrap32 (block + num_blocks_per_warp), local_out + x_elem * A_elem) })
            (block, 0))
       else Some 0 })"

definition blocked_reduce :: "nat \<Rightarrow> nat list \<Rightarrow> vec \<Rightarrow> vec option" where
  "blocked_reduce warpsize threads tmp =
    (let offsetTarget = (if warpsize = 64 then 48 else 32)
     in map_option snd
       (while_loop (\<lambda>(offset, tmp). offset \<le> offsetTarget)
          (\<lambda>(offset, tmp). do {
              tmp' \<leftarrow> lockstep threads
                 (\<lambda>idx_t old cur.
                     let lane = idx_t mod warpsize
                     in if wrap32 (lane + offset) < warpsize
                        then do {
                          a \<leftarrow> rd old lane;
                          b \<leftarrow> rd old (wrap32 (lane + offset));
                          wr cur lane (a + b) }
                        else Some cur) tmp;
              Some (wrap32 (offset * 2), tmp') })
          (3, tmp)))"

definition residual_blocked_k_step ::
  "nat \<Rightarrow> nat \<Rightarrow> nat \<Rightarrow> vec \<Rightarrow> int list \<Rightarrow> int list \<Rightarrow> int \<Rightarrow> vec \<Rightarrow> vec \<Rightarrow> nat
     \<Rightarrow> nat list \<times> vec \<times> vec \<Rightarrow> (nat list \<times> vec \<times> vec) option" where
  "residual_blocked_k_step warpsize gridDim blockDim vals cols rows Nb x rhs bs =
    (\<lambda>(target_block_row, tmp, out).
       let threads = [0..<blockDim];
           NUM_THREADS = gridDim;
           num_warps_in_grid = NUM_THREADS div warpsize
       in if \<not> list_all (\<lambda>row. row < u32 Nb) target_block_row then None
          else do {
            local_out \<leftarrow> those (map (\<lambda>idx_t.
                blocked_local_out warpsize bs vals cols rows x (target_block_row ! idx_t) idx_t) threads);
            tmp \<leftarrow> run_threads (\<lambda>idx_t tmp. wr tmp (idx_t mod warpsize) (local_out ! idx_t)) threads tmp;
            tmp \<leftarrow> blocked_reduce warpsize threads tmp;
            out \<leftarrow> run_threads
               (\<lambda>idx_t out.
                   let lane = idx_t mod warpsize
                   in if lane < bs
                      then do {
                        let row = wrap32 (wrap32 (target_block_row ! idx_t * bs) + lane);
                        b \<leftarrow> rd rhs row;
                        v \<leftarrow> rd tmp lane;
                        wr out row (b - v) }
                      else Some out) threads out;
            Some (map (\<lambda>row. wrap32 (row + num_warps_in_grid)) target_block_row, tmp, out) })"

definition residual_blocked_k_group ::
  "nat \<Rightarrow> nat \<Rightarrow> nat \<Rightarrow> nat \<Rightarrow> nat \<Rightarrow> vec \<Rightarrow> int list \<Rightarrow> int list \<Rightarrow> int \<Rightarrow> vec \<Rightarrow> vec \<Rightarrow> nat
     \<Rightarrow> vec \<Rightarrow> vec option" where
  "residual_blocked_k_group warpSize gridDim blockDim shm blockIdx vals cols rows Nb x rhs block_size out =
    (let warpsize = warpSize;
         bsize = blockDim;
         threads = [0..<blockDim];
         gid = (\<lambda>threadIdx. global_id blockDim blockIdx threadIdx);
         idx_b = (\<lambda>threadIdx. gid threadIdx div bsize);
         idx = (\<lambda>idx_t. wrap32 (wrap32 (idx_b idx_t * bsize) + idx_t));
         bs = block_size
     in if bs = 0 \<or> wrap32 (bs * bs) = 0 \<or> warpsize = 0 then None
        else map_option (snd \<circ> snd)
          (while_loop (\<lambda>(target_block_row, tmp, out). list_ex (\<lambda>row. row < u32 Nb) target_block_row)
             (residual_blocked_k_step warpsize gridDim blockDim vals cols rows Nb x rhs bs)
             (map (\<lambda>idx_t. idx idx_t div warpsize) threads, replicate shm 0, out)))"

definition residual_blocked_k ::
  "nat \<Rightarrow> nat \<Rightarrow> nat \<Rightarrow> nat \<Rightarrow> vec \<Rightarrow> int list \<Rightarrow> int list \<Rightarrow> int \<Rightarrow> vec \<Rightarrow> vec \<Rightarrow> vec \<Rightarrow> nat
     \<Rightarrow> vec option" where
  "residual_blocked_k warpSize gridDim blockDim shm vals cols rows Nb x rhs out block_size =
     run_threads (\<lambda>b. residual_blocked_k_group warpSize gridDim blockDim shm b vals cols rows Nb x rhs
                        block_size)
       [0..<gridDim] out"

subsection \<open>residual_k and spmv_k: block size 1\<close>

text \<open>
  The two kernels have the same text but for the last assignment. The loop of a thread
  over the entries of its row and the reduction of the shared array by halving are
  defined once; then, for each kernel, one pass of the loop over the rows and the kernel.
\<close>

definition row_local_sum :: "vec \<Rightarrow> int list \<Rightarrow> vec \<Rightarrow> int \<Rightarrow> int \<Rightarrow> nat \<Rightarrow> nat \<Rightarrow> real option" where
  "row_local_sum vals cols x rowStart rowEnd bsize idx_t =
     map_option snd
       (while_loop (\<lambda>(j, local_sum). j < rowEnd)
          (\<lambda>(j, local_sum). do {
              col \<leftarrow> rdi cols j;
              v \<leftarrow> rdi vals j;
              xc \<leftarrow> rdi x col;
              Some (s32 (wrap32 (u32 j + bsize)), local_sum + v * xc) })
          (s32 (wrap32 (u32 rowStart + idx_t)), 0))"

definition tree_reduce :: "nat \<Rightarrow> vec \<Rightarrow> vec option" where
  "tree_reduce bsize tmp =
     map_option snd
       (while_loop (\<lambda>(offset, tmp). 0 < offset)
          (\<lambda>(offset, tmp). do {
              tmp' \<leftarrow> lockstep [0..<bsize]
                 (\<lambda>idx_t old cur.
                     if idx_t < u32 offset
                     then do {
                       a \<leftarrow> rd old idx_t;
                       b \<leftarrow> rd old (wrap32 (idx_t + u32 offset));
                       wr cur idx_t (a + b) }
                     else Some cur) tmp;
              Some (offset div 2, tmp') })
          (s32 (bsize div 2), tmp))"

definition residual_k_step ::
  "nat \<Rightarrow> nat \<Rightarrow> vec \<Rightarrow> int list \<Rightarrow> int list \<Rightarrow> int \<Rightarrow> vec \<Rightarrow> vec
     \<Rightarrow> int list \<times> vec \<times> vec \<Rightarrow> (int list \<times> vec \<times> vec) option" where
  "residual_k_step gridDim blockDim vals cols rows N x rhs =
    (\<lambda>(row, tmp, out).
       let bsize = blockDim;
           threads = [0..<blockDim];
           num_workgroups = gridDim
       in if \<not> list_all (\<lambda>r. r < N) row then None
          else do {
            local_sum \<leftarrow> those (map (\<lambda>idx_t. do {
                rowStart \<leftarrow> rdi rows (row ! idx_t);
                rowEnd \<leftarrow> rdi rows (row ! idx_t + 1);
                row_local_sum vals cols x rowStart rowEnd bsize idx_t }) threads);
            tmp \<leftarrow> run_threads (\<lambda>idx_t tmp. wr tmp idx_t (local_sum ! idx_t)) threads tmp;
            tmp \<leftarrow> tree_reduce bsize tmp;
            out \<leftarrow> run_threads
               (\<lambda>idx_t out.
                   if idx_t = 0
                   then do {
                     b \<leftarrow> rdi rhs (row ! idx_t);
                     v \<leftarrow> rd tmp idx_t;
                     wri out (row ! idx_t) (b - v) }
                   else Some out) threads out;
            Some (map (\<lambda>r. s32 (wrap32 (u32 r + num_workgroups))) row, tmp, out) })"

definition residual_k_group ::
  "nat \<Rightarrow> nat \<Rightarrow> nat \<Rightarrow> nat \<Rightarrow> vec \<Rightarrow> int list \<Rightarrow> int list \<Rightarrow> int \<Rightarrow> vec \<Rightarrow> vec \<Rightarrow> vec \<Rightarrow> vec option" where
  "residual_k_group gridDim blockDim shm blockIdx vals cols rows N x rhs out =
    (let bsize = blockDim;
         threads = [0..<blockDim];
         gid = (\<lambda>threadIdx. global_id blockDim blockIdx threadIdx);
         idx_b = (\<lambda>threadIdx. gid threadIdx div bsize)
     in map_option (snd \<circ> snd)
          (while_loop (\<lambda>(row, tmp, out). list_ex (\<lambda>r. r < N) row)
             (residual_k_step gridDim blockDim vals cols rows N x rhs)
             (map (\<lambda>idx_t. s32 (idx_b idx_t)) threads, replicate shm 0, out)))"

definition residual_k ::
  "nat \<Rightarrow> nat \<Rightarrow> nat \<Rightarrow> vec \<Rightarrow> int list \<Rightarrow> int list \<Rightarrow> int \<Rightarrow> vec \<Rightarrow> vec \<Rightarrow> vec \<Rightarrow> vec option" where
  "residual_k gridDim blockDim shm vals cols rows N x rhs out =
     run_threads (\<lambda>b. residual_k_group gridDim blockDim shm b vals cols rows N x rhs)
       [0..<gridDim] out"

definition spmv_k_step ::
  "nat \<Rightarrow> nat \<Rightarrow> vec \<Rightarrow> int list \<Rightarrow> int list \<Rightarrow> int \<Rightarrow> vec
     \<Rightarrow> int list \<times> vec \<times> vec \<Rightarrow> (int list \<times> vec \<times> vec) option" where
  "spmv_k_step gridDim blockDim vals cols rows N x =
    (\<lambda>(row, tmp, out).
       let bsize = blockDim;
           threads = [0..<blockDim];
           num_workgroups = gridDim
       in if \<not> list_all (\<lambda>r. r < N) row then None
          else do {
            local_sum \<leftarrow> those (map (\<lambda>idx_t. do {
                rowStart \<leftarrow> rdi rows (row ! idx_t);
                rowEnd \<leftarrow> rdi rows (row ! idx_t + 1);
                row_local_sum vals cols x rowStart rowEnd bsize idx_t }) threads);
            tmp \<leftarrow> run_threads (\<lambda>idx_t tmp. wr tmp idx_t (local_sum ! idx_t)) threads tmp;
            tmp \<leftarrow> tree_reduce bsize tmp;
            out \<leftarrow> run_threads
               (\<lambda>idx_t out.
                   if idx_t = 0
                   then do {
                     v \<leftarrow> rd tmp idx_t;
                     wri out (row ! idx_t) v }
                   else Some out) threads out;
            Some (map (\<lambda>r. s32 (wrap32 (u32 r + num_workgroups))) row, tmp, out) })"

definition spmv_k_group ::
  "nat \<Rightarrow> nat \<Rightarrow> nat \<Rightarrow> nat \<Rightarrow> vec \<Rightarrow> int list \<Rightarrow> int list \<Rightarrow> int \<Rightarrow> vec \<Rightarrow> vec \<Rightarrow> vec option" where
  "spmv_k_group gridDim blockDim shm blockIdx vals cols rows N x out =
    (let bsize = blockDim;
         threads = [0..<blockDim];
         gid = (\<lambda>threadIdx. global_id blockDim blockIdx threadIdx);
         idx_b = (\<lambda>threadIdx. gid threadIdx div bsize)
     in map_option (snd \<circ> snd)
          (while_loop (\<lambda>(row, tmp, out). list_ex (\<lambda>r. r < N) row)
             (spmv_k_step gridDim blockDim vals cols rows N x)
             (map (\<lambda>idx_t. s32 (idx_b idx_t)) threads, replicate shm 0, out)))"

definition spmv_k ::
  "nat \<Rightarrow> nat \<Rightarrow> nat \<Rightarrow> vec \<Rightarrow> int list \<Rightarrow> int list \<Rightarrow> int \<Rightarrow> vec \<Rightarrow> vec \<Rightarrow> vec option" where
  "spmv_k gridDim blockDim shm vals cols rows N x out =
     run_threads (\<lambda>b. spmv_k_group gridDim blockDim shm b vals cols rows N x)
       [0..<gridDim] out"

subsection \<open>The host functions residual and spmv\<close>

text \<open>
  \<open>warpSize\<close> is the width of a wavefront of the device, which the blocked kernel reads
  from the built-in variable of that name. \<open>spmv\<close> does not use its argument
  \<open>block_size\<close>: the source notes that the kernel is used for block size 1 only.
\<close>

definition residual ::
  "bool \<Rightarrow> nat \<Rightarrow> vec \<Rightarrow> int list \<Rightarrow> int list \<Rightarrow> vec \<Rightarrow> vec \<Rightarrow> vec \<Rightarrow> int \<Rightarrow> nat \<Rightarrow> vec outcome" where
  "residual hip warpSize vals cols rows x rhs out Nb block_size =
    (if hip then
       (let blockDim = 64;
            num_work_groups = ceilDivision (u32 Nb) blockDim;
            gridDim = wrap32 (num_work_groups * blockDim);
            shared_mem_size = wrap32 (blockDim * 8)
        in if block_size > 1
           then completed (residual_blocked_k warpSize gridDim blockDim (shared_mem_size div 8)
                             vals cols rows Nb x rhs out block_size)
           else completed (residual_k gridDim blockDim (shared_mem_size div 8)
                             vals cols rows Nb x rhs out))
     else Raised ''Error residual for rocsparse only supported when compiling with hipcc'' out)"

definition spmv ::
  "bool \<Rightarrow> vec \<Rightarrow> int list \<Rightarrow> int list \<Rightarrow> vec \<Rightarrow> vec \<Rightarrow> int \<Rightarrow> nat \<Rightarrow> vec outcome" where
  "spmv hip vals cols rows x y Nb block_size =
    (if hip then
       (let blockDim = 64;
            num_work_groups = ceilDivision (u32 Nb) blockDim;
            gridDim = wrap32 (num_work_groups * blockDim);
            shared_mem_size = wrap32 (blockDim * 8)
        in completed (spmv_k gridDim blockDim (shared_mem_size div 8) vals cols rows Nb x y))
     else Raised ''Error spmv for rocsparse only supported when compiling with hipcc'' y)"

subsection \<open>Notions used in the statements\<close>

text \<open>The entries \<open>lo \<le> j < hi\<close> that a thread \<open>t\<close> of \<open>B\<close> visits with stride \<open>B\<close>.\<close>

definition strided :: "nat \<Rightarrow> nat \<Rightarrow> nat \<Rightarrow> nat \<Rightarrow> nat set" where
  "strided lo hi B t = {j. lo \<le> j \<and> j < hi \<and> (j - lo) mod B = t}"

text \<open>The product of row \<open>row\<close> of a scalar compressed-row matrix with \<open>x\<close>.\<close>

definition row_product :: "vec \<Rightarrow> int list \<Rightarrow> int list \<Rightarrow> vec \<Rightarrow> nat \<Rightarrow> real" where
  "row_product vals cols rows x row =
     (\<Sum>j = nat (rows ! row)..<nat (rows ! (row + 1)). vals ! j * x ! nat (cols ! j))"

text \<open>
  The block-sparse matrix of the data model: \<open>Nb\<close> block rows of blocks of size \<open>bs\<close>, the
  row pointers non-decreasing from 0 to the number of stored blocks, the block columns
  within the matrix.
\<close>

definition bsr_matrix :: "nat \<Rightarrow> nat \<Rightarrow> vec \<Rightarrow> int list \<Rightarrow> int list \<Rightarrow> bool" where
  "bsr_matrix Nb bs vals cols rows \<longleftrightarrow>
     length rows = Nb + 1 \<and> rows ! 0 = 0 \<and> sorted rows \<and> rows ! Nb = int (length cols)
     \<and> length vals = length cols * bs * bs
     \<and> list_all (\<lambda>c. 0 \<le> c \<and> c < int Nb) cols"

text \<open>
  The reference product \<open>matrix * x\<close>, in the words of the claims: the entry
  \<open>row * bs + r\<close> is the sum over the stored blocks of the row, and over the columns \<open>c\<close>
  of a block, of \<open>vals[block * bs * bs + r * bs + c] * x[cols[block] * bs + c]\<close>.
\<close>

definition ref_spmv :: "nat \<Rightarrow> nat \<Rightarrow> vec \<Rightarrow> int list \<Rightarrow> int list \<Rightarrow> vec \<Rightarrow> vec" where
  "ref_spmv Nb bs vals cols rows x =
     map (\<lambda>i. let row = i div bs; r = i mod bs
              in (\<Sum>block\<leftarrow>[nat (rows ! row)..<nat (rows ! (row + 1))].
                   \<Sum>c\<leftarrow>[0..<bs]. vals ! (block * bs * bs + r * bs + c)
                                   * x ! (nat (cols ! block) * bs + c)))
       [0..<Nb * bs]"

text \<open>
  For blocks of size 3: the term that the stored block \<open>block\<close> contributes to entry \<open>r\<close> of
  its block row through its column \<open>c\<close>, as \<open>residual_blocked_k\<close> reads it.
\<close>

definition block_term :: "vec \<Rightarrow> int list \<Rightarrow> vec \<Rightarrow> nat \<Rightarrow> nat \<Rightarrow> nat \<Rightarrow> real" where
  "block_term vals cols x c r block =
     x ! (nat (cols ! block) * 3 + c) * vals ! (block * 9 + c + r * 3)"

text \<open>
  One step of the reduction among \<open>W\<close> lanes: lane \<open>l\<close> adds the entry \<open>off\<close> lanes
  further on, if there is one.
\<close>

definition shifted :: "nat \<Rightarrow> nat \<Rightarrow> vec \<Rightarrow> vec" where
  "shifted W off tmp = map (\<lambda>l. if l + off < W then tmp ! l + tmp ! (l + off) else tmp ! l) [0..<W]"

text \<open>The product of block row \<open>row\<close> with \<open>x\<close>, entry \<open>r\<close> of the three.\<close>

definition block_row_product :: "vec \<Rightarrow> int list \<Rightarrow> int list \<Rightarrow> vec \<Rightarrow> nat \<Rightarrow> nat \<Rightarrow> real" where
  "block_row_product vals cols rows x row r =
     (\<Sum>c<3. \<Sum>block = nat (rows ! row)..<nat (rows ! (row + 1)). block_term vals cols x c r block)"

text \<open>The output after the block rows in \<open>R\<close> have been written.\<close>

definition rows_written :: "nat set \<Rightarrow> vec \<Rightarrow> int list \<Rightarrow> int list \<Rightarrow> vec \<Rightarrow> vec \<Rightarrow> vec \<Rightarrow> vec" where
  "rows_written R vals cols rows x rhs out =
     map (\<lambda>j. if j div 3 \<in> R
              then rhs ! j - block_row_product vals cols rows x (j div 3) (j mod 3)
              else out ! j) [0..<length out]"

section \<open>Properties\<close>

subsection \<open>Machine integers in range\<close>

lemma wrap32_id: "n < 4294967296 \<Longrightarrow> wrap32 n = n"
  by (simp add: wrap32_def)

lemma u32_id: "0 \<le> i \<Longrightarrow> i < 4294967296 \<Longrightarrow> u32 i = nat i"
  by (simp add: u32_def)

lemma u32_int: "n < 4294967296 \<Longrightarrow> u32 (int n) = n"
  by (simp add: u32_def)

lemma s32_id: "n < 2147483648 \<Longrightarrow> s32 n = int n"
  by (simp add: s32_def)

lemma global_id_eq:
  "blockDim * blockIdx + threadIdx < 4294967296 \<Longrightarrow>
   global_id blockDim blockIdx threadIdx = blockDim * blockIdx + threadIdx"
  by (simp add: global_id_def wrap32_def)

lemma ceilDivision_cover: "0 < B \<Longrightarrow> A \<le> ceilDivision A B * B"
proof -
  assume B: "0 < B"
  have 1: "A div B * B + A mod B = A" by simp
  have 2: "A mod B < B" using B by simp
  show ?thesis
  proof (cases "A mod B > 0")
    case True
    then have "ceilDivision A B * B = A div B * B + B" by (simp add: ceilDivision_def)
    then show ?thesis using 1 2 by linarith
  next
    case False
    then have "ceilDivision A B * B = A div B * B" by (simp add: ceilDivision_def)
    then show ?thesis using 1 False by linarith
  qed
qed

lemma ceilDivision_upper: "0 < B \<Longrightarrow> ceilDivision A B * B < A + B"
proof -
  assume B: "0 < B"
  have 1: "A div B * B + A mod B = A" by simp
  show ?thesis
  proof (cases "A mod B > 0")
    case True
    then have "ceilDivision A B * B = A div B * B + B" by (simp add: ceilDivision_def)
    then show ?thesis using 1 True by linarith
  next
    case False
    then have "ceilDivision A B * B = A div B * B" by (simp add: ceilDivision_def)
    then show ?thesis using 1 False B by linarith
  qed
qed

lemma ceilDivision_le:
  assumes B: "0 < B" and A: "A \<le> k * B"
  shows "ceilDivision A B * B \<le> k * B"
proof -
  have "ceilDivision A B * B < A + B" using B by (rule ceilDivision_upper)
  also have "\<dots> \<le> Suc k * B" using A by simp
  finally have "ceilDivision A B < Suc k" by (simp only: mult_less_cancel2)
  then show ?thesis by simp
qed

subsection \<open>Launches\<close>

lemma run_threads_append:
  "run_threads f (xs @ ys) s = Option.bind (run_threads f xs s) (run_threads f ys)"
  by (induction xs arbitrary: s) (auto split: bind_splits)

lemma run_threads_map: "run_threads f (map g xs) s = run_threads (\<lambda>x. f (g x)) xs s"
  by (induction xs arbitrary: s) (auto intro: bind_option_cong)

lemma run_threads_cong:
  "(\<And>x s. x \<in> set xs \<Longrightarrow> f x s = g x s) \<Longrightarrow> run_threads f xs s = run_threads g xs s"
  by (induction xs arbitrary: s) (auto intro: bind_option_cong)

lemma grid_global_ids: "map (\<lambda>(b, t). B * b + t) (grid G B) = [0..<G * B]"
proof (induction G)
  case 0
  then show ?case by (simp add: grid_def)
next
  case (Suc G)
  have 1: "grid (Suc G) B = grid G B @ map (Pair G) [0..<B]"
    by (simp add: grid_def product_concat_map)
  have 2: "map (\<lambda>(b, t). B * b + t) (map (Pair G) [0..<B]) = map (\<lambda>t. t + G * B) [0..<B]"
    by (simp add: comp_def add.commute mult.commute)
  have 3: "map (\<lambda>t. t + G * B) [0..<B] = [G * B..<G * B + B]"
    by (simp only: map_add_upt) (simp add: add.commute)
  have "map (\<lambda>(b, t). B * b + t) (grid (Suc G) B) = [0..<G * B] @ [G * B..<G * B + B]"
    unfolding 1 map_append Suc.IH 2 3 ..
  also have "\<dots> = [0..<G * B + B]" by (simp only: upt_add_eq_append[OF le0, symmetric] add_0)
  finally show ?case by (simp add: add.commute)
qed

lemma grid_set: "set (grid G B) = {..<G} \<times> {..<B}"
  by (auto simp: grid_def)

lemma grid_bound: "(b, t) \<in> set (grid G B) \<Longrightarrow> B * b + t < G * B"
proof -
  assume "(b, t) \<in> set (grid G B)"
  then have b: "b < G" and t: "t < B" by (auto simp: grid_def)
  have "B * b + t < B * b + B" using t by simp
  also have "\<dots> = B * Suc b" by simp
  also have "\<dots> \<le> B * G" using b by (intro mult_le_mono2) simp
  finally show ?thesis by (simp add: mult.commute)
qed

text \<open>Threads that each update one slot of their own.\<close>

lemma run_threads_scatter:
  assumes step: "\<And>g s. g < n \<Longrightarrow> length s = L \<Longrightarrow>
                   f g s = Some (if g < N then s[ix g := h g (s ! ix g)] else s)"
    and inj: "inj_on ix {..<N}"
    and len: "length s0 = L"
  shows "\<exists>s'. run_threads f [0..<n] s0 = Some s' \<and> length s' = L \<and>
           (\<forall>g<min n N. ix g < L \<longrightarrow> s' ! ix g = h g (s0 ! ix g)) \<and>
           (\<forall>i<L. i \<notin> ix ` {..<min n N} \<longrightarrow> s' ! i = s0 ! i)"
  using step
proof (induction n)
  case 0
  then show ?case using len by simp
next
  case (Suc n)
  from Suc.IH Suc.prems obtain s' where
    run: "run_threads f [0..<n] s0 = Some s'" and l: "length s' = L"
    and hit: "\<forall>g<min n N. ix g < L \<longrightarrow> s' ! ix g = h g (s0 ! ix g)"
    and miss: "\<forall>i<L. i \<notin> ix ` {..<min n N} \<longrightarrow> s' ! i = s0 ! i"
    by (meson less_Suc_eq)
  have fn: "f n s' = Some (if n < N then s'[ix n := h n (s' ! ix n)] else s')"
    using Suc.prems[of n s'] l by simp
  show ?case
  proof (cases "n < N")
    case False
    then have "min (Suc n) N = min n N" by simp
    then show ?thesis using run l hit miss fn False
      by (simp add: run_threads_append)
  next
    case True
    let ?s = "s'[ix n := h n (s' ! ix n)]"
    have m: "min (Suc n) N = Suc n" "min n N = n" using True by simp_all
    have notin: "ix n \<notin> ix ` {..<n}"
    proof
      assume "ix n \<in> ix ` {..<n}"
      then obtain g where "g < n" "ix g = ix n" by auto
      then show False using inj True by (auto simp: inj_on_def)
    qed
    have r: "run_threads f [0..<Suc n] s0 = Some ?s"
      using run fn True by (simp add: run_threads_append)
    have h1: "\<forall>g<Suc n. ix g < L \<longrightarrow> ?s ! ix g = h g (s0 ! ix g)"
    proof (intro allI impI)
      fix g assume g: "g < Suc n" and b: "ix g < L"
      show "?s ! ix g = h g (s0 ! ix g)"
      proof (cases "g = n")
        case True
        then show ?thesis using b l miss notin m by simp
      next
        case False
        then have gn: "g < n" using g by simp
        then have "ix g \<noteq> ix n" using notin by (metis imageI lessThan_iff)
        then show ?thesis using hit gn b m by simp
      qed
    qed
    have h2: "\<forall>i<L. i \<notin> ix ` {..<Suc n} \<longrightarrow> ?s ! i = s0 ! i"
    proof (intro allI impI)
      fix i assume i: "i < L" and n: "i \<notin> ix ` {..<Suc n}"
      then have "i \<noteq> ix n" "i \<notin> ix ` {..<n}" by (auto simp: lessThan_Suc)
      then show "?s ! i = s0 ! i" using miss i m by simp
    qed
    show ?thesis using r l h1 h2 m by simp
  qed
qed

lemma run_grid_by_index:
  "run_threads (\<lambda>(b, t). thread b t) (grid G B) s =
   run_threads (\<lambda>g. thread (g div B) (g mod B)) [0..<G * B] s"
proof -
  have "run_threads (\<lambda>(b, t). thread b t) (grid G B) s
        = run_threads (\<lambda>(b, t). thread ((B * b + t) div B) ((B * b + t) mod B)) (grid G B) s"
    by (rule run_threads_cong) (auto simp: grid_def)
  also have "\<dots> = run_threads (\<lambda>g. thread (g div B) (g mod B))
                      (map (\<lambda>(b, t). B * b + t) (grid G B)) s"
    by (simp add: run_threads_map split_def)
  finally show ?thesis by (simp only: grid_global_ids)
qed

text \<open>A launch in which the thread of global index \<open>g < N\<close> updates slot \<open>ix g\<close> once.\<close>

lemma launch_scatter:
  assumes thread: "\<And>b t s. b < G \<Longrightarrow> t < B \<Longrightarrow> length s = L \<Longrightarrow>
             thread b t s = Some (if B * b + t < N
               then s[ix (B * b + t) := h (B * b + t) (s ! ix (B * b + t))] else s)"
    and inj: "inj_on ix {..<N}"
    and len: "length (s0 :: 'a list) = L"
  shows "\<exists>s'. run_threads (\<lambda>(b, t). thread b t) (grid G B) s0 = Some s' \<and> length s' = L \<and>
           (\<forall>g<min (G * B) N. ix g < L \<longrightarrow> s' ! ix g = h g (s0 ! ix g)) \<and>
           (\<forall>i<L. i \<notin> ix ` {..<min (G * B) N} \<longrightarrow> s' ! i = s0 ! i)"
  unfolding run_grid_by_index
proof (rule run_threads_scatter[OF _ inj len])
  fix g and s :: "'a list" assume g: "g < G * B" and l: "length s = L"
  then have B: "0 < B" by (cases B) auto
  have b: "g div B < G" using g B by (simp add: less_mult_imp_div_less)
  have t: "g mod B < B" using B by simp
  show "thread (g div B) (g mod B) s = Some (if g < N then s[ix g := h g (s ! ix g)] else s)"
    using thread[OF b t l] by simp
qed

lemma vmul_k_thread_once:
  assumes g: "blockDim * blockIdx + threadIdx = g" "g < 2147483648"
    and N: "0 \<le> N" "N \<le> int P" "N + int P \<le> 2147483648"
    and len: "nat N \<le> length in1" "nat N \<le> length in2" "nat N \<le> length out"
  shows "vmul_k_thread P blockDim blockIdx threadIdx alpha in1 in2 N out =
         Some (if g < nat N then out[g := out ! g + alpha * in1 ! g * in2 ! g] else out)"
proof -
  have gid: "s32 (global_id blockDim blockIdx threadIdx) = int g"
    using g by (simp add: global_id_eq s32_id)
  show ?thesis
  proof (cases "int g < N")
    case False
    then have "\<not> g < nat N" using N by linarith
    then show ?thesis using False
      by (simp add: vmul_k_thread_def gid while_loop.simps)
  next
    case True
    have "g + P < 2147483648" using True N by linarith
    then have nxt: "s32 (wrap32 (u32 (int g) + P)) = int g + int P"
      using g by (simp add: u32_int wrap32_id s32_id)
    have gN: "g < nat N" using True by linarith
    have "\<not> int g + int P < N" using N by linarith
    then show ?thesis using True gN len
      apply (simp add: vmul_k_thread_def gid)
      apply (subst while_loop.simps)
      apply (simp add: rdi_def wri_def rd_def wr_def nxt)
      apply (subst while_loop.simps)
      apply simp
      done
  qed
qed

lemma vmul_k_result:
  assumes N: "0 \<le> N" "N \<le> int P" "N + int P \<le> 2147483648"
    and PB: "P * B \<le> 2147483648" and B: "0 < B"
    and len: "nat N \<le> length in1" "nat N \<le> length in2" "nat N \<le> length out"
  shows "vmul_k P B alpha in1 in2 out N =
         Some (map (\<lambda>i. if i < nat N then out ! i + alpha * in1 ! i * in2 ! i else out ! i)
                 [0..<length out])"
proof -
  have "\<exists>s'. run_threads (\<lambda>(b, t). vmul_k_thread P B b t alpha in1 in2 N) (grid P B) out = Some s'
          \<and> length s' = length out
          \<and> (\<forall>g<min (P * B) (nat N). g < length out \<longrightarrow>
                 s' ! g = (\<lambda>g v. v + alpha * in1 ! g * in2 ! g) g (out ! g))
          \<and> (\<forall>i<length out. i \<notin> (\<lambda>g. g) ` {..<min (P * B) (nat N)} \<longrightarrow> s' ! i = out ! i)"
  proof (rule launch_scatter)
    fix b t and s :: vec assume b: "b < P" and t: "t < B" and l: "length s = length out"
    have "B * b + t < P * B" using b t by (intro grid_bound) (simp add: grid_def)
    then have "B * b + t < 2147483648" using PB by simp
    then show "vmul_k_thread P B b t alpha in1 in2 N s =
      Some (if B * b + t < nat N
            then s[B * b + t := s ! (B * b + t) + alpha * in1 ! (B * b + t) * in2 ! (B * b + t)]
            else s)"
      using vmul_k_thread_once[where blockDim=B and blockIdx=b and threadIdx=t and out=s
          and P=P and alpha=alpha, OF refl _ N len(1,2)] len(3) l by simp
  qed simp_all
  then obtain s' where run: "vmul_k P B alpha in1 in2 out N = Some s'"
    and l: "length s' = length out"
    and hit: "\<forall>g<min (P * B) (nat N). g < length out \<longrightarrow> s' ! g = out ! g + alpha * in1 ! g * in2 ! g"
    and miss: "\<forall>i<length out. i \<notin> {..<min (P * B) (nat N)} \<longrightarrow> s' ! i = out ! i"
    by (auto simp: vmul_k_def)
  have "nat N \<le> P * 1" using N by simp
  also have "\<dots> \<le> P * B" using B by (intro mult_le_mono2) simp
  finally have m: "min (P * B) (nat N) = nat N" by simp
  have "s' = map (\<lambda>i. if i < nat N then out ! i + alpha * in1 ! i * in2 ! i else out ! i) [0..<length out]"
    using l hit miss by (intro nth_equalityI) (auto simp: m)
  then show ?thesis using run by simp
qed

subsection \<open>vmul\<close>

lemma vmul_result:
  assumes N: "0 \<le> N" "N \<le> 33554432"
    and len: "nat N \<le> length in1" "nat N \<le> length in2" "nat N \<le> length out"
  shows "vmul True alpha in1 in2 out N =
         Completed (map (\<lambda>i. if i < nat N then out ! i + alpha * in1 ! i * in2 ! i else out ! i)
                 [0..<length out])"
proof -
  let ?G = "ceilDivision (nat N) 64 * 64"
  have u: "u32 N = nat N" using N by (simp add: u32_id)
  have lo: "nat N \<le> ?G" by (rule ceilDivision_cover) simp
  have "nat N \<le> 524288 * 64" using N by simp
  then have "?G \<le> 524288 * 64" by (intro ceilDivision_le) simp
  then have hi: "?G \<le> 33554432" by simp
  then have w: "wrap32 ?G = ?G" by (simp add: wrap32_id)
  have "vmul_k ?G 64 alpha in1 in2 out N =
         Some (map (\<lambda>i. if i < nat N then out ! i + alpha * in1 ! i * in2 ! i else out ! i)
                 [0..<length out])"
    using N lo hi len by (intro vmul_k_result) simp_all
  then show ?thesis by (simp add: vmul_def u w)
qed

subsection \<open>full_to_pressure_restriction\<close>

lemma full_to_pressure_restriction_k_thread_once:
  assumes g: "blockDim * blockIdx + threadIdx = g" "g < 4294967296"
    and N: "Nb \<le> P" "Nb + P \<le> 4294967296" "3 * Nb \<le> 4294967296"
    and len: "3 * Nb \<le> length fine_y" "3 * Nb \<le> length weights" "Nb \<le> length coarse_y"
  shows "full_to_pressure_restriction_k_thread P blockDim blockIdx threadIdx fine_y weights Nb coarse_y =
         Some (if g < Nb then coarse_y[g := restricted fine_y weights g] else coarse_y)"
proof -
  have gid: "global_id blockDim blockIdx threadIdx = g"
    using g by (simp add: global_id_eq)
  show ?thesis
  proof (cases "g < Nb")
    case False
    then show ?thesis
      by (simp add: full_to_pressure_restriction_k_thread_def gid while_loop.simps)
  next
    case True
    have b: "3 * g + 3 \<le> 4294967296" "g + P < 4294967296" "3 * g + 3 \<le> length fine_y"
       "3 * g + 3 \<le> length weights" "g < length coarse_y" "\<not> g + P < Nb"
      using True N len by simp_all
    show ?thesis using True b
      by (simp add: full_to_pressure_restriction_k_thread_def gid Let_def while_loop.simps
            rd_def wr_def wrap32_id restricted_def numeral_3_eq_3)
  qed
qed

lemma min_grid: "N \<le> P \<Longrightarrow> 0 < B \<Longrightarrow> min (P * B) N = (N::nat)"
proof -
  assume N: "N \<le> P" and B: "0 < B"
  have "N \<le> P * 1" using N by simp
  also have "\<dots> \<le> P * B" using B by (intro mult_le_mono2) simp
  finally show ?thesis by simp
qed

lemma full_to_pressure_restriction_k_result:
  assumes N: "Nb \<le> P" "Nb + P \<le> 4294967296" "3 * Nb \<le> 4294967296"
    and PB: "P * B \<le> 4294967296" and B: "0 < B"
    and len: "3 * Nb \<le> length fine_y" "3 * Nb \<le> length weights" "Nb \<le> length coarse_y"
  shows "full_to_pressure_restriction_k P B fine_y weights coarse_y Nb =
         Some (map (\<lambda>row. if row < Nb then restricted fine_y weights row else coarse_y ! row)
                 [0..<length coarse_y])"
proof -
  have "\<exists>s'. run_threads (\<lambda>(b, t). full_to_pressure_restriction_k_thread P B b t fine_y weights Nb)
               (grid P B) coarse_y = Some s'
          \<and> length s' = length coarse_y
          \<and> (\<forall>g<min (P * B) Nb. g < length coarse_y \<longrightarrow>
                 s' ! g = (\<lambda>g v. restricted fine_y weights g) g (coarse_y ! g))
          \<and> (\<forall>i<length coarse_y. i \<notin> (\<lambda>g. g) ` {..<min (P * B) Nb} \<longrightarrow> s' ! i = coarse_y ! i)"
  proof (rule launch_scatter)
    fix b t and s :: vec assume b: "b < P" and t: "t < B" and l: "length s = length coarse_y"
    have "B * b + t < P * B" using b t by (intro grid_bound) (simp add: grid_def)
    then have "B * b + t < 4294967296" using PB by simp
    then show "full_to_pressure_restriction_k_thread P B b t fine_y weights Nb s =
      Some (if B * b + t < Nb then s[B * b + t := restricted fine_y weights (B * b + t)] else s)"
      using full_to_pressure_restriction_k_thread_once[where blockDim=B and blockIdx=b
          and threadIdx=t and coarse_y=s and P=P, OF refl _ N len(1,2)] len(3) l by simp
  qed simp_all
  then obtain s' where
    run: "full_to_pressure_restriction_k P B fine_y weights coarse_y Nb = Some s'"
    and l: "length s' = length coarse_y"
    and hit: "\<forall>g<min (P * B) Nb. g < length coarse_y \<longrightarrow> s' ! g = restricted fine_y weights g"
    and miss: "\<forall>i<length coarse_y. i \<notin> {..<min (P * B) Nb} \<longrightarrow> s' ! i = coarse_y ! i"
    by (auto simp: full_to_pressure_restriction_k_def)
  have m: "min (P * B) Nb = Nb" using N B by (simp add: min_grid)
  have "s' = map (\<lambda>row. if row < Nb then restricted fine_y weights row else coarse_y ! row)
                 [0..<length coarse_y]"
    using l hit miss by (intro nth_equalityI) (auto simp: m)
  then show ?thesis using run by simp
qed

lemma host_grid:
  assumes "0 \<le> N" "N \<le> 64 * int k" "k \<le> 1048576"
  shows "u32 N = nat N" "nat N \<le> wrap32 (ceilDivision (u32 N) 64 * 64)"
    "wrap32 (ceilDivision (u32 N) 64 * 64) \<le> 64 * k"
proof -
  let ?G = "ceilDivision (nat N) 64 * 64"
  have "N < 4294967296" using assms by linarith
  then show u: "u32 N = nat N" using assms by (simp add: u32_id)
  have lo: "nat N \<le> ?G" by (rule ceilDivision_cover) simp
  have "nat N \<le> k * 64" using assms by linarith
  then have hi: "?G \<le> k * 64" by (intro ceilDivision_le) simp
  then have "?G < 4294967296" using assms by linarith
  then have w: "wrap32 ?G = ?G" by (simp add: wrap32_id)
  show "nat N \<le> wrap32 (ceilDivision (u32 N) 64 * 64)" using lo by (simp add: u w)
  show "wrap32 (ceilDivision (u32 N) 64 * 64) \<le> 64 * k" using hi by (simp add: u w)
qed

lemma full_to_pressure_restriction_result:
  assumes N: "0 \<le> Nb" "Nb \<le> 67108864"
    and len: "3 * nat Nb \<le> length fine_y" "3 * nat Nb \<le> length weights" "nat Nb \<le> length coarse_y"
  shows "full_to_pressure_restriction True fine_y weights coarse_y Nb =
         Completed (map (\<lambda>row. if row < nat Nb then restricted fine_y weights row else coarse_y ! row)
                 [0..<length coarse_y])"
proof -
  let ?G = "wrap32 (ceilDivision (u32 Nb) 64 * 64)"
  have h: "u32 Nb = nat Nb" "nat Nb \<le> ?G" "?G \<le> 64 * 1048576"
    using host_grid[of Nb 1048576] N by simp_all
  have "full_to_pressure_restriction_k ?G 64 fine_y weights coarse_y (nat Nb) =
         Some (map (\<lambda>row. if row < nat Nb then restricted fine_y weights row else coarse_y ! row)
                 [0..<length coarse_y])"
    using N h len by (intro full_to_pressure_restriction_k_result) simp_all
  then show ?thesis by (simp add: full_to_pressure_restriction_def h(1))
qed

subsection \<open>add_coarse_pressure_correction\<close>

lemma add_coarse_pressure_correction_k_thread_once:
  assumes g: "blockDim * blockIdx + threadIdx = g" "g < 4294967296"
    and N: "Nb \<le> P" "Nb + P \<le> 4294967296" "3 * Nb \<le> 4294967296" "p < 3"
    and len: "Nb \<le> length coarse_x" "3 * Nb \<le> length fine_x"
  shows "add_coarse_pressure_correction_k_thread P blockDim blockIdx threadIdx coarse_x p Nb fine_x =
         Some (if g < Nb then fine_x[3 * g + p := fine_x ! (3 * g + p) + coarse_x ! g] else fine_x)"
proof -
  have gid: "global_id blockDim blockIdx threadIdx = g"
    using g by (simp add: global_id_eq)
  show ?thesis
  proof (cases "g < Nb")
    case False
    then show ?thesis
      by (simp add: add_coarse_pressure_correction_k_thread_def gid while_loop.simps)
  next
    case True
    have b: "g * 3 < 4294967296" "g * 3 + p < 4294967296" "g + P < 4294967296"
      "g * 3 + p < length fine_x" "g < length coarse_x" "\<not> g + P < Nb"
      using True N len by simp_all
    show ?thesis using True b
      by (simp add: add_coarse_pressure_correction_k_thread_def gid Let_def while_loop.simps
            rd_def wr_def wrap32_id mult.commute)
  qed
qed

lemma add_coarse_pressure_correction_k_result:
  assumes N: "Nb \<le> P" "Nb + P \<le> 4294967296" "3 * Nb \<le> 4294967296" "p < 3"
    and PB: "P * B \<le> 4294967296" and B: "0 < B"
    and len: "Nb \<le> length coarse_x" "3 * Nb \<le> length fine_x"
  shows "add_coarse_pressure_correction_k P B coarse_x fine_x p Nb =
         Some (map (\<lambda>j. if j div 3 < Nb \<and> j mod 3 = p
                        then fine_x ! j + coarse_x ! (j div 3) else fine_x ! j)
                 [0..<length fine_x])"
proof -
  have "\<exists>s'. run_threads (\<lambda>(b, t). add_coarse_pressure_correction_k_thread P B b t coarse_x p Nb)
               (grid P B) fine_x = Some s'
          \<and> length s' = length fine_x
          \<and> (\<forall>g<min (P * B) Nb. (\<lambda>g. 3 * g + p) g < length fine_x \<longrightarrow>
                 s' ! ((\<lambda>g. 3 * g + p) g) = (\<lambda>g v. v + coarse_x ! g) g (fine_x ! ((\<lambda>g. 3 * g + p) g)))
          \<and> (\<forall>i<length fine_x. i \<notin> (\<lambda>g. 3 * g + p) ` {..<min (P * B) Nb} \<longrightarrow> s' ! i = fine_x ! i)"
  proof (rule launch_scatter)
    fix b t and s :: vec assume b: "b < P" and t: "t < B" and l: "length s = length fine_x"
    have "B * b + t < P * B" using b t by (intro grid_bound) (simp add: grid_def)
    then have "B * b + t < 4294967296" using PB by simp
    then show "add_coarse_pressure_correction_k_thread P B b t coarse_x p Nb s =
      Some (if B * b + t < Nb
            then s[3 * (B * b + t) + p := s ! (3 * (B * b + t) + p) + coarse_x ! (B * b + t)] else s)"
      using add_coarse_pressure_correction_k_thread_once[where blockDim=B and blockIdx=b
          and threadIdx=t and fine_x=s and P=P, OF refl _ N len(1)] len(2) l by simp
  next
    show "inj_on (\<lambda>g. 3 * g + p) {..<Nb}" by (simp add: inj_on_def)
  qed simp
  then obtain s' where
    run: "add_coarse_pressure_correction_k P B coarse_x fine_x p Nb = Some s'"
    and l: "length s' = length fine_x"
    and hit: "\<forall>g<min (P * B) Nb. 3 * g + p < length fine_x \<longrightarrow>
                 s' ! (3 * g + p) = fine_x ! (3 * g + p) + coarse_x ! g"
    and miss: "\<forall>i<length fine_x. i \<notin> (\<lambda>g. 3 * g + p) ` {..<min (P * B) Nb} \<longrightarrow> s' ! i = fine_x ! i"
    by (auto simp: add_coarse_pressure_correction_k_def)
  have m: "min (P * B) Nb = Nb" using N B by (simp add: min_grid)
  have "s' = map (\<lambda>j. if j div 3 < Nb \<and> j mod 3 = p
                        then fine_x ! j + coarse_x ! (j div 3) else fine_x ! j)
                 [0..<length fine_x]"
  proof (intro nth_equalityI)
    show "length s' = length (map (\<lambda>j. if j div 3 < Nb \<and> j mod 3 = p
                        then fine_x ! j + coarse_x ! (j div 3) else fine_x ! j)
                 [0..<length fine_x])" using l by simp
  next
    fix j assume "j < length s'"
    then have j: "j < length fine_x" using l by simp
    show "s' ! j = map (\<lambda>j. if j div 3 < Nb \<and> j mod 3 = p
                        then fine_x ! j + coarse_x ! (j div 3) else fine_x ! j)
                 [0..<length fine_x] ! j"
    proof (cases "j div 3 < Nb \<and> j mod 3 = p")
      case True
      then have e: "3 * (j div 3) + p = j" by auto
      have "j div 3 < min (P * B) Nb" "3 * (j div 3) + p < length fine_x"
        using True j e by (simp_all add: m)
      with hit have "s' ! (3 * (j div 3) + p) = fine_x ! (3 * (j div 3) + p) + coarse_x ! (j div 3)"
        by blast
      then show ?thesis using True j by (simp add: e)
    next
      case False
      have "j \<notin> (\<lambda>g. 3 * g + p) ` {..<Nb}"
      proof
        assume "j \<in> (\<lambda>g. 3 * g + p) ` {..<Nb}"
        then obtain g where g: "g < Nb" "j = 3 * g + p" by auto
        then have "j div 3 = g" "j mod 3 = p" using N(4) by simp_all
        then show False using False g by simp
      qed
      with miss j have "s' ! j = fine_x ! j" by (simp add: m)
      then show ?thesis using j False by auto
    qed
  qed
  then show ?thesis using run by simp
qed

lemma add_coarse_pressure_correction_result:
  assumes N: "0 \<le> Nb" "Nb \<le> 67108864" and p: "0 \<le> p" "p < 3"
    and len: "nat Nb \<le> length coarse_x" "3 * nat Nb \<le> length fine_x"
  shows "add_coarse_pressure_correction True coarse_x fine_x p Nb =
         Completed (map (\<lambda>j. if j div 3 < nat Nb \<and> j mod 3 = nat p
                        then fine_x ! j + coarse_x ! (j div 3) else fine_x ! j)
                 [0..<length fine_x])"
proof -
  let ?G = "wrap32 (ceilDivision (u32 Nb) 64 * 64)"
  have h: "u32 Nb = nat Nb" "nat Nb \<le> ?G" "?G \<le> 64 * 1048576"
    using host_grid[of Nb 1048576] N by simp_all
  have up: "u32 p = nat p" using p by (simp add: u32_id)
  have "add_coarse_pressure_correction_k ?G 64 coarse_x fine_x (nat p) (nat Nb) =
         Some (map (\<lambda>j. if j div 3 < nat Nb \<and> j mod 3 = nat p
                        then fine_x ! j + coarse_x ! (j div 3) else fine_x ! j)
                 [0..<length fine_x])"
    using N p h len by (intro add_coarse_pressure_correction_k_result) simp_all
  then show ?thesis by (simp add: add_coarse_pressure_correction_def h(1) up)
qed

subsection \<open>prolongate_vector\<close>

lemma prolongate_vector_k_thread_once:
  assumes g: "blockDim * blockIdx + threadIdx = g" "g < 4294967296"
    and N: "N \<le> P" "N + P \<le> 4294967296"
    and cols: "\<forall>i<N. 0 \<le> cols ! i \<and> nat (cols ! i) < length inp"
    and len: "N \<le> length cols" "N \<le> length out"
  shows "prolongate_vector_k_thread P blockDim blockIdx threadIdx inp cols N out =
         Some (if g < N then out[g := out ! g + inp ! nat (cols ! g)] else out)"
proof -
  have gid: "global_id blockDim blockIdx threadIdx = g"
    using g by (simp add: global_id_eq)
  show ?thesis
  proof (cases "g < N")
    case False
    then show ?thesis
      by (simp add: prolongate_vector_k_thread_def gid while_loop.simps)
  next
    case True
    have b: "g + P < 4294967296" "g < length cols" "g < length out" "\<not> g + P < N"
      "0 \<le> cols ! g" "nat (cols ! g) < length inp"
      using True N len cols by simp_all
    show ?thesis using True b
      by (simp add: prolongate_vector_k_thread_def gid Let_def while_loop.simps
            rd_def wr_def rdi_def wrap32_id)
  qed
qed

lemma prolongate_vector_k_result:
  assumes N: "N \<le> P" "N + P \<le> 4294967296"
    and PB: "P * B \<le> 4294967296" and B: "0 < B"
    and cols: "\<forall>i<N. 0 \<le> cols ! i \<and> nat (cols ! i) < length inp"
    and len: "N \<le> length cols" "N \<le> length out"
  shows "prolongate_vector_k P B inp out cols N =
         Some (map (\<lambda>i. if i < N then out ! i + inp ! nat (cols ! i) else out ! i)
                 [0..<length out])"
proof -
  have "\<exists>s'. run_threads (\<lambda>(b, t). prolongate_vector_k_thread P B b t inp cols N)
               (grid P B) out = Some s'
          \<and> length s' = length out
          \<and> (\<forall>g<min (P * B) N. g < length out \<longrightarrow>
                 s' ! g = (\<lambda>g v. v + inp ! nat (cols ! g)) g (out ! g))
          \<and> (\<forall>i<length out. i \<notin> (\<lambda>g. g) ` {..<min (P * B) N} \<longrightarrow> s' ! i = out ! i)"
  proof (rule launch_scatter)
    fix b t and s :: vec assume b: "b < P" and t: "t < B" and l: "length s = length out"
    have "B * b + t < P * B" using b t by (intro grid_bound) (simp add: grid_def)
    then have "B * b + t < 4294967296" using PB by simp
    then show "prolongate_vector_k_thread P B b t inp cols N s =
      Some (if B * b + t < N then s[B * b + t := s ! (B * b + t) + inp ! nat (cols ! (B * b + t))] else s)"
      using prolongate_vector_k_thread_once[where blockDim=B and blockIdx=b
          and threadIdx=t and out=s and P=P, OF refl _ N cols len(1)] len(2) l by simp
  qed simp_all
  then obtain s' where
    run: "prolongate_vector_k P B inp out cols N = Some s'"
    and l: "length s' = length out"
    and hit: "\<forall>g<min (P * B) N. g < length out \<longrightarrow> s' ! g = out ! g + inp ! nat (cols ! g)"
    and miss: "\<forall>i<length out. i \<notin> {..<min (P * B) N} \<longrightarrow> s' ! i = out ! i"
    by (auto simp: prolongate_vector_k_def)
  have m: "min (P * B) N = N" using N B by (simp add: min_grid)
  have "s' = map (\<lambda>i. if i < N then out ! i + inp ! nat (cols ! i) else out ! i) [0..<length out]"
    using l hit miss by (intro nth_equalityI) (auto simp: m)
  then show ?thesis using run by simp
qed

lemma prolongate_vector_result:
  assumes N: "0 \<le> N" "N \<le> 67108864"
    and cols: "\<forall>i<nat N. 0 \<le> cols ! i \<and> nat (cols ! i) < length inp"
    and len: "nat N \<le> length cols" "nat N \<le> length out"
  shows "prolongate_vector True inp out cols N =
         Completed (map (\<lambda>i. if i < nat N then out ! i + inp ! nat (cols ! i) else out ! i)
                 [0..<length out])"
proof -
  let ?G = "wrap32 (ceilDivision (u32 N) 64 * 64)"
  have h: "u32 N = nat N" "nat N \<le> ?G" "?G \<le> 64 * 1048576"
    using host_grid[of N 1048576] N by simp_all
  have "prolongate_vector_k ?G 64 inp out cols (nat N) =
         Some (map (\<lambda>i. if i < nat N then out ! i + inp ! nat (cols ! i) else out ! i)
                 [0..<length out])"
    using N h len cols by (intro prolongate_vector_k_result) simp_all
  then show ?thesis by (simp add: prolongate_vector_def h(1))
qed

subsection \<open>Loops\<close>

lemma while_loop_rule:
  assumes wf: "wf R" and init: "I s"
    and step: "\<And>s. I s \<Longrightarrow> c s \<Longrightarrow> \<exists>s'. f s = Some s' \<and> I s' \<and> (s', s) \<in> R"
  shows "\<exists>s'. while_loop c f s = Some s' \<and> I s' \<and> \<not> c s'"
  using wf init
proof (induction s rule: wf_induct_rule)
  case (less s)
  show ?case
  proof (cases "c s")
    case False
    then show ?thesis using less.prems by (subst while_loop.simps) simp
  next
    case True
    with step[OF less.prems] obtain s' where s': "f s = Some s'" "I s'" "(s', s) \<in> R" by blast
    from less.IH[OF s'(3) s'(2)] obtain s'' where
      "while_loop c f s' = Some s''" "I s''" "\<not> c s''" by blast
    then show ?thesis using True s' by (subst while_loop.simps) simp
  qed
qed

lemma run_threads_only_first:
  "run_threads (\<lambda>t s. if t = 0 then F s else Some s) [0..<Suc n] s = F s"
proof -
  have skip: "run_threads (\<lambda>t s. if t = 0 then F s else Some s) [Suc 0..<m] s' = Some s'" for m s'
    by (induction m) (auto simp: run_threads_append)
  have "[0..<Suc n] = 0 # [Suc 0..<Suc n]" by (simp add: upt_conv_Cons)
  then show ?thesis by (cases "F s") (simp_all add: skip del: upt_Suc)
qed

lemma those_map_Some: "(\<And>x. x \<in> set xs \<Longrightarrow> f x = Some (g x)) \<Longrightarrow> those (map f xs) = Some (map g xs)"
  by (induction xs) simp_all

lemma run_threads_fill:
  assumes "length ls = n" "length tmp = n"
  shows "run_threads (\<lambda>t tmp. wr tmp t (ls ! t)) [0..<n] tmp = Some ls"
proof -
  have "\<exists>s'. run_threads (\<lambda>t tmp. wr tmp t (ls ! t)) [0..<n] tmp = Some s' \<and> length s' = n \<and>
           (\<forall>g<min n n. (\<lambda>g. g) g < n \<longrightarrow> s' ! (\<lambda>g. g) g = (\<lambda>g v. ls ! g) g (tmp ! (\<lambda>g. g) g)) \<and>
           (\<forall>i<n. i \<notin> (\<lambda>g. g) ` {..<min n n} \<longrightarrow> s' ! i = tmp ! i)"
    by (rule run_threads_scatter) (simp_all add: wr_def assms)
  then obtain s' where s': "run_threads (\<lambda>t tmp. wr tmp t (ls ! t)) [0..<n] tmp = Some s'"
    "length s' = n" "\<forall>g<n. s' ! g = ls ! g" by auto
  then have "s' = ls" using assms by (intro nth_equalityI) simp_all
  then show ?thesis using s' by simp
qed

subsection \<open>Sums over the entries of a row, taken with a stride\<close>

lemma finite_strided [simp]: "finite (strided lo hi B t)"
  by (rule finite_subset[of _ "{..<hi}"]) (auto simp: strided_def)

lemma sum_strided:
  fixes f :: "nat \<Rightarrow> real"
  assumes "0 < B"
  shows "(\<Sum>t<B. \<Sum>j\<in>strided lo hi B t. f j) = (\<Sum>j = lo..<hi. f j)"
proof -
  have "(\<Sum>t\<in>{..<B}. \<Sum>j\<in>{j \<in> {lo..<hi}. (j - lo) mod B = t}. f j) = sum f {lo..<hi}"
    using assms by (intro sum.group) auto
  moreover have "{j \<in> {lo..<hi}. (j - lo) mod B = t} = strided lo hi B t" for t
    by (auto simp: strided_def)
  ultimately show ?thesis by simp
qed

text \<open>The entries of the stride below \<open>n\<close>: the next one is added when \<open>n\<close> passes it.\<close>

lemma strided_step:
  assumes "lo + t \<le> j" "(j - lo) mod B = t" "t < B" "j < hi"
  shows "strided lo (min (j + B) hi) B t = insert j (strided lo (min j hi) B t)"
proof -
  have "i = j" if i: "j \<le> i" "i < j + B" "(i - lo) mod B = t" for i
  proof -
    have "(i - lo) mod B = (j - lo) mod B" using i assms by simp
    moreover have "j - lo \<le> i - lo" using i by simp
    ultimately have "B dvd (i - lo) - (j - lo)" by (simp add: mod_eq_dvd_iff_nat)
    moreover have "(i - lo) - (j - lo) = i - j" using i assms by simp
    ultimately have "B dvd i - j" by simp
    moreover have "i - j < B" using i by simp
    ultimately have "i - j = 0" by (meson dvd_imp_le not_less zero_less_iff_neq_zero)
    then show ?thesis using i by simp
  qed
  note uniq = this
  have B: "0 < B" using assms by simp
  show ?thesis
  proof (intro set_eqI iffI)
    fix i assume "i \<in> strided lo (min (j + B) hi) B t"
    then have i: "lo \<le> i" "i < j + B" "i < hi" "(i - lo) mod B = t" by (auto simp: strided_def)
    show "i \<in> insert j (strided lo (min j hi) B t)"
    proof (cases "i < j")
      case True
      then show ?thesis using i by (simp add: strided_def)
    next
      case False
      then have "i = j" using uniq i by simp
      then show ?thesis by simp
    qed
  next
    fix i assume "i \<in> insert j (strided lo (min j hi) B t)"
    then consider "i = j" | "lo \<le> i" "i < j" "i < hi" "(i - lo) mod B = t"
      by (auto simp: strided_def)
    then show "i \<in> strided lo (min (j + B) hi) B t"
    proof cases
      case 1
      then show ?thesis using assms B by (simp add: strided_def)
    next
      case 2
      then show ?thesis by (simp add: strided_def)
    qed
  qed
qed

lemma strided_empty: "hi \<le> lo + t \<Longrightarrow> t < B \<Longrightarrow> strided lo hi B t = {}"
proof -
  assume h: "hi \<le> lo + t" "t < B"
  have False if j: "lo \<le> j" "j < hi" "(j - lo) mod B = t" for j
  proof -
    have "(j - lo) mod B \<le> j - lo" by (rule mod_less_eq_dividend)
    then show False using j h by simp
  qed
  then show ?thesis by (auto simp: strided_def)
qed

lemma row_local_sum_eq:
  assumes B: "0 < B" "t < B"
    and r: "0 \<le> rs" "rs \<le> re" "re + int B \<le> 2147483648"
    and len: "nat re \<le> length cols" "nat re \<le> length vals"
    and cols: "\<forall>j. nat rs \<le> j \<and> j < nat re \<longrightarrow> 0 \<le> cols ! j \<and> nat (cols ! j) < length x"
  shows "row_local_sum vals cols x rs re B t =
         Some (\<Sum>j\<in>strided (nat rs) (nat re) B t. vals ! j * x ! nat (cols ! j))"
proof -
  define lo hi where "lo = nat rs" and "hi = nat re"
  define f where "f j = vals ! j * x ! nat (cols ! j)" for j
  define I where "I = (\<lambda>(j, ls). 0 \<le> j \<and> lo + t \<le> nat j \<and> (nat j - lo) mod B = t
     \<and> nat j < hi + B \<and> ls = (\<Sum>i\<in>strided lo (min (nat j) hi) B t. f i))"
  define body where "body = (\<lambda>(j, local_sum). do {
              col \<leftarrow> rdi cols j;
              v \<leftarrow> rdi vals j;
              xc \<leftarrow> rdi x col;
              Some (s32 (wrap32 (u32 j + B)), local_sum + v * xc) })"
  have lohi: "lo \<le> hi" "int lo = rs" "int hi = re" using r by (simp_all add: lo_def hi_def)
  have j0: "s32 (wrap32 (u32 rs + t)) = int (lo + t)"
  proof -
    have "lo + t < 2147483648" using lohi r B by linarith
    moreover have "rs < 4294967296" using r by linarith
    then have "u32 rs = lo" using r by (simp add: u32_id lo_def)
    ultimately show ?thesis by (simp add: wrap32_id s32_id)
  qed
  have init: "I (int (lo + t), 0)"
    unfolding I_def split_conv nat_int using B lohi(1) by (simp add: strided_empty)
  have step: "\<exists>s'. body s = Some s' \<and> I s' \<and> (s', s) \<in> measure (\<lambda>(j, ls). hi + B - nat j)"
    if "I s" "(\<lambda>(j, local_sum). j < re) s" for s
  proof -
    obtain j ls where s: "s = (j, ls)" by (cases s)
    from that s have I: "0 \<le> j" "lo + t \<le> nat j" "(nat j - lo) mod B = t" "nat j < hi + B"
      "ls = (\<Sum>i\<in>strided lo (min (nat j) hi) B t. f i)" and c: "j < re"
      by (simp_all add: I_def)
    have jh: "nat j < hi" using c I lohi by linarith
    have jlo: "nat rs \<le> nat j" using I by (simp add: lo_def)
    have col: "0 \<le> cols ! nat j" "nat (cols ! nat j) < length x"
      using cols jlo jh by (simp_all add: hi_def)
    have "nat j + B < 2147483648" using jh lohi r by linarith
    then have nxt: "s32 (wrap32 (u32 j + B)) = int (nat j + B)"
      using I by (simp add: u32_id wrap32_id s32_id)
    have jl: "nat j < length cols" "nat j < length vals" using jh len unfolding hi_def by linarith+
    have b: "body s = Some (int (nat j + B), ls + f (nat j))"
      using I(1) jl col by (simp add: body_def s rdi_def rd_def nxt f_def)
    have m: "(nat j + B - lo) mod B = t"
    proof -
      have "nat j + B - lo = (nat j - lo) + B" using I(2) by simp
      then have "(nat j + B - lo) mod B = (nat j - lo) mod B" by (simp only: mod_add_self2)
      then show ?thesis using I(3) by simp
    qed
    have st: "strided lo (min (nat j + B) hi) B t = insert (nat j) (strided lo (min (nat j) hi) B t)"
      using I B jh by (intro strided_step) simp_all
    have notin: "nat j \<notin> strided lo (min (nat j) hi) B t" by (simp add: strided_def)
    have "I (int (nat j + B), ls + f (nat j))"
      unfolding I_def split_conv nat_int st
      using I jh m notin by (simp add: min_absorb1)
    moreover have "((int (nat j + B), ls + f (nat j)), s) \<in> measure (\<lambda>(j, ls). hi + B - nat j)"
      unfolding s in_measure split_conv nat_int using jh B by simp
    ultimately show ?thesis using b by blast
  qed
  from while_loop_rule[where I=I and c="\<lambda>(j, local_sum). j < re" and f=body,
      OF wf_measure init step]
  obtain s' where s': "while_loop (\<lambda>(j, local_sum). j < re) body (int (lo + t), 0) = Some s'"
    "I s'" "\<not> (\<lambda>(j, local_sum). j < re) s'" by blast
  obtain j ls where jl: "s' = (j, ls)" by (cases s')
  have "hi \<le> nat j" using s'(3) jl lohi by simp
  then have "ls = (\<Sum>i\<in>strided lo hi B t. f i)" using s'(2) jl by (simp add: I_def)
  then show ?thesis
    unfolding row_local_sum_def j0 body_def[symmetric] s' jl
    by (simp add: lo_def hi_def f_def)
qed

subsection \<open>The reduction of the shared array by halving\<close>

lemma lockstep_halve:
  fixes tmp :: vec
  assumes "0 < off" "2 * off \<le> length tmp" "length tmp < 2147483648"
  shows "lockstep [0..<length tmp]
           (\<lambda>idx_t old cur.
               if idx_t < u32 (int off)
               then do {
                 a \<leftarrow> rd old idx_t;
                 b \<leftarrow> rd old (wrap32 (idx_t + u32 (int off)));
                 wr cur idx_t (a + b) }
               else Some cur) tmp
         = Some (map (\<lambda>t. if t < off then tmp ! t + tmp ! (t + off) else tmp ! t) [0..<length tmp])"
proof -
  let ?n = "length tmp"
  let ?stmt = "\<lambda>idx_t cur.
               if idx_t < u32 (int off)
               then do {
                 a \<leftarrow> rd tmp idx_t;
                 b \<leftarrow> rd tmp (wrap32 (idx_t + u32 (int off)));
                 wr cur idx_t (a + b) }
               else Some cur"
  have u: "u32 (int off) = off" using assms by (simp add: u32_int)
  have "\<exists>s'. run_threads ?stmt [0..<?n] tmp = Some s' \<and> length s' = ?n \<and>
           (\<forall>g<min ?n off. g < ?n \<longrightarrow> s' ! g = tmp ! g + tmp ! (g + off)) \<and>
           (\<forall>i<?n. i \<notin> (\<lambda>g. g) ` {..<min ?n off} \<longrightarrow> s' ! i = tmp ! i)"
  proof (rule run_threads_scatter[where ix="\<lambda>g. g" and h="\<lambda>g v. tmp ! g + tmp ! (g + off)"
        and N=off and L="?n" and n="?n" and ?s0.0=tmp and f="?stmt"])
    fix g and s :: vec assume g: "g < ?n" and l: "length s = ?n"
    show "?stmt g s = Some (if g < off then s[g := tmp ! g + tmp ! (g + off)] else s)"
    proof (cases "g < off")
      case True
      then have "g + off < ?n" "g + off < 4294967296" using assms by simp_all
      then show ?thesis using True g l by (simp add: u rd_def wr_def wrap32_id)
    next
      case False
      then show ?thesis by (simp add: u)
    qed
  qed simp_all
  then obtain s' where s': "run_threads ?stmt [0..<?n] tmp = Some s'" "length s' = ?n"
    "\<forall>g<min ?n off. s' ! g = tmp ! g + tmp ! (g + off)"
    "\<forall>i<?n. i \<notin> {..<min ?n off} \<longrightarrow> s' ! i = tmp ! i" by auto
  have m: "min ?n off = off" using assms by simp
  have "s' = map (\<lambda>t. if t < off then tmp ! t + tmp ! (t + off) else tmp ! t) [0..<?n]"
    using s' by (intro nth_equalityI) (auto simp: m)
  then show ?thesis using s' by (simp add: lockstep_def)
qed

lemma tree_loop:
  fixes tmp :: vec
  assumes "length tmp = n" "2 ^ Suc k \<le> n" "n < 2147483648"
  shows "\<exists>tmp'. while_loop (\<lambda>(offset, tmp). 0 < offset)
          (\<lambda>(offset, tmp). do {
              tmp' \<leftarrow> lockstep [0..<n]
                 (\<lambda>idx_t old cur.
                     if idx_t < u32 offset
                     then do {
                       a \<leftarrow> rd old idx_t;
                       b \<leftarrow> rd old (wrap32 (idx_t + u32 offset));
                       wr cur idx_t (a + b) }
                     else Some cur) tmp;
              Some (offset div 2, tmp') })
          (int (2 ^ k), tmp) = Some (0, tmp')
        \<and> length tmp' = n \<and> tmp' ! 0 = (\<Sum>t<2 ^ Suc k. tmp ! t)"
proof -
  define body :: "int \<times> vec \<Rightarrow> (int \<times> vec) option" where "body = (\<lambda>(offset, tmp). do {
              tmp' \<leftarrow> lockstep [0..<n]
                 (\<lambda>idx_t old cur.
                     if idx_t < u32 offset
                     then do {
                       a \<leftarrow> rd old idx_t;
                       b \<leftarrow> rd old (wrap32 (idx_t + u32 offset));
                       wr cur idx_t (a + b) }
                     else Some cur) tmp;
              Some (offset div 2, tmp') })"
  have step: "body (int off, tmp) =
      Some (int off div 2, map (\<lambda>t. if t < off then tmp ! t + tmp ! (t + off) else tmp ! t) [0..<n])"
    if "length tmp = n" "0 < off" "2 * off \<le> n" for off and tmp :: vec
  proof -
    have "lockstep [0..<n]
           (\<lambda>idx_t old cur.
               if idx_t < u32 (int off)
               then do {
                 a \<leftarrow> rd old idx_t;
                 b \<leftarrow> rd old (wrap32 (idx_t + u32 (int off)));
                 wr cur idx_t (a + b) }
               else Some cur) tmp
         = Some (map (\<lambda>t. if t < off then tmp ! t + tmp ! (t + off) else tmp ! t) [0..<n])"
      using lockstep_halve[of off tmp] that assms(3) by simp
    then show ?thesis unfolding body_def split_conv by (simp only: bind.bind_lunit)
  qed
  have "\<exists>tmp'. while_loop (\<lambda>(offset, tmp). 0 < offset) body (int (2 ^ k), tmp) = Some (0, tmp')
        \<and> length tmp' = n \<and> tmp' ! 0 = (\<Sum>t<2 ^ Suc k. tmp ! t)"
    using assms(1,2)
  proof (induction k arbitrary: tmp)
    case 0
    let ?t1 = "map (\<lambda>t. if t < 1 then tmp ! t + tmp ! (t + 1) else tmp ! t) [0..<n]"
    have n2: "2 \<le> n" using 0 by simp
    have b: "body (int 1, tmp) = Some (int 1 div 2, ?t1)" using 0 n2 by (intro step) simp_all
    have v: "?t1 ! 0 = (\<Sum>t<2 ^ Suc 0. tmp ! t)" using n2 by (simp add: lessThan_Suc numeral_2_eq_2)
    have "while_loop (\<lambda>(offset, tmp). 0 < offset) body (int (2 ^ 0), tmp) = Some (0, ?t1)"
      using b
      apply (subst while_loop.simps)
      apply simp
      apply (subst while_loop.simps)
      apply simp
      done
    then show ?case using v by simp
  next
    case (Suc k)
    let ?o = "2 ^ Suc k :: nat"
    let ?t1 = "map (\<lambda>t. if t < ?o then tmp ! t + tmp ! (t + ?o) else tmp ! t) [0..<n]"
    have b: "body (int ?o, tmp) = Some (int ?o div 2, ?t1)" using Suc.prems by (intro step) simp_all
    have l1: "length ?t1 = n" by simp
    have "2 ^ Suc k \<le> n" using Suc.prems by simp
    from Suc.IH[OF l1 this] obtain tmp' where
      w: "while_loop (\<lambda>(offset, tmp). 0 < offset) body (int (2 ^ k), ?t1) = Some (0, tmp')"
      and l: "length tmp' = n" and v: "tmp' ! 0 = (\<Sum>t<2 ^ Suc k. ?t1 ! t)"
      by blast
    have "(\<Sum>t<?o. ?t1 ! t) = (\<Sum>t<?o. tmp ! t + tmp ! (t + ?o))"
      using Suc.prems by (intro sum.cong) simp_all
    also have "\<dots> = (\<Sum>t<?o. tmp ! t) + (\<Sum>t<?o. tmp ! (t + ?o))" by (rule sum.distrib)
    also have "(\<Sum>t<?o. tmp ! (t + ?o)) = (\<Sum>t = ?o..<?o + ?o. tmp ! t)"
      using sum.shift_bounds_nat_ivl[of "\<lambda>t. tmp ! t" 0 ?o ?o] by (simp add: atLeast0LessThan)
    also have "(\<Sum>t<?o. tmp ! t) + (\<Sum>t = ?o..<?o + ?o. tmp ! t) = (\<Sum>t<?o + ?o. tmp ! t)"
      using sum.atLeastLessThan_concat[of 0 ?o "?o + ?o" "\<lambda>t. tmp ! t"] by (simp add: atLeast0LessThan)
    finally have s: "(\<Sum>t<?o. ?t1 ! t) = (\<Sum>t<2 ^ Suc (Suc k). tmp ! t)" by (simp add: mult_2)
    have d: "int ?o div 2 = int (2 ^ k)" by simp
    have "while_loop (\<lambda>(offset, tmp). 0 < offset) body (int ?o, tmp) = Some (0, tmp')"
      using b w unfolding d
      apply (subst while_loop.simps)
      apply simp
      done
    then show ?case using l v s by simp
  qed
  then show ?thesis unfolding body_def .
qed

lemma tree_reduce_64:
  fixes tmp :: vec
  assumes "length tmp = 64"
  shows "\<exists>tmp'. tree_reduce 64 tmp = Some tmp' \<and> length tmp' = 64 \<and> tmp' ! 0 = (\<Sum>t<64. tmp ! t)"
proof -
  have "s32 (64 div 2) = int (2 ^ 5)" by (simp add: s32_def)
  then show ?thesis using tree_loop[of tmp 64 5] assms
    unfolding tree_reduce_def by auto
qed

subsection \<open>spmv_k and residual_k\<close>

lemma group_rows_uniform:
  assumes "b < 67108864"
  shows "map (\<lambda>idx_t. s32 (global_id 64 b idx_t div 64)) [0..<64] = replicate 64 (int b)"
proof (intro nth_equalityI)
  fix t assume "t < length (map (\<lambda>idx_t. s32 (global_id 64 b idx_t div 64)) [0..<64])"
  then have t: "t < 64" by simp
  then have "64 * b + t < 4294967296" using assms by simp
  then have "global_id 64 b t = 64 * b + t" by (rule global_id_eq)
  moreover have "(64 * b + t) div 64 = b" using t by simp
  ultimately show "map (\<lambda>idx_t. s32 (global_id 64 b idx_t div 64)) [0..<64] ! t = replicate 64 (int b) ! t"
    using t assms by (simp add: s32_id del: upt_Suc)
qed simp

lemma list_ex_replicate: "0 < n \<Longrightarrow> list_ex P (replicate n a) = P a"
  by (cases n) (auto simp: list_ex_iff)

lemma list_all_replicate: "list_all P (replicate n a) = (n = 0 \<or> P a)"
  by (cases n) (auto simp: list_all_iff)

text \<open>What the threads of a group leave in \<open>tmp[0]\<close> for a row: the sum over its entries.\<close>

lemma row_sums_reduced:
  assumes row: "row < nat N" "nat N < length rows"
    and rows: "\<forall>row<nat N. 0 \<le> rows ! row \<and> rows ! row \<le> rows ! (row + 1)
                 \<and> nat (rows ! (row + 1)) \<le> length cols"
    and len: "length cols \<le> length vals" "length cols + 64 \<le> 2147483648"
    and cols: "\<forall>j<length cols. 0 \<le> cols ! j \<and> nat (cols ! j) < length x"
  shows "\<exists>tmp'. do {
            local_sum \<leftarrow> those (map (\<lambda>idx_t. do {
                rowStart \<leftarrow> rdi rows (replicate 64 (int row) ! idx_t);
                rowEnd \<leftarrow> rdi rows (replicate 64 (int row) ! idx_t + 1);
                row_local_sum vals cols x rowStart rowEnd 64 idx_t }) [0..<64]);
            tmp \<leftarrow> run_threads (\<lambda>idx_t tmp. wr tmp idx_t (local_sum ! idx_t)) [0..<64] (replicate 64 0);
            tree_reduce 64 tmp } = Some tmp'
        \<and> length tmp' = 64
        \<and> tmp' ! 0 = (\<Sum>j = nat (rows ! row)..<nat (rows ! (row + 1)). vals ! j * x ! nat (cols ! j))"
proof -
  define rs re where "rs = rows ! row" and "re = rows ! (row + 1)"
  define f where "f j = vals ! j * x ! nat (cols ! j)" for j
  define S where "S t = (\<Sum>j\<in>strided (nat rs) (nat re) 64 t. f j)" for t
  have r: "0 \<le> rs" "rs \<le> re" "nat re \<le> length cols"
    using rows row by (simp_all add: rs_def re_def)
  have re: "re + 64 \<le> 2147483648" "nat re \<le> length vals" using r len by linarith+
  have c: "\<forall>j. nat rs \<le> j \<and> j < nat re \<longrightarrow> 0 \<le> cols ! j \<and> nat (cols ! j) < length x"
    using cols r by auto
  have one: "do {
                rowStart \<leftarrow> rdi rows (replicate 64 (int row) ! t);
                rowEnd \<leftarrow> rdi rows (replicate 64 (int row) ! t + 1);
                row_local_sum vals cols x rowStart rowEnd 64 t } = Some (S t)"
    if "t \<in> set [0..<64]" for t
  proof -
    have t: "t < 64" using that by simp
    have l: "row < length rows" "row + 1 < length rows" using row by simp_all
    have "row_local_sum vals cols x rs re 64 t = Some (S t)"
      unfolding S_def f_def using t r re c by (intro row_local_sum_eq) simp_all
    moreover have "nat (int row + 1) = row + 1" by simp
    ultimately show ?thesis
      using t l by (simp add: rdi_def rd_def rs_def re_def del: upt_Suc)
  qed
  have th: "those (map (\<lambda>idx_t. do {
                rowStart \<leftarrow> rdi rows (replicate 64 (int row) ! idx_t);
                rowEnd \<leftarrow> rdi rows (replicate 64 (int row) ! idx_t + 1);
                row_local_sum vals cols x rowStart rowEnd 64 idx_t }) [0..<64]) = Some (map S [0..<64])"
    using one by (rule those_map_Some)
  have fill: "run_threads (\<lambda>idx_t tmp. wr tmp idx_t (map S [0..<64] ! idx_t)) [0..<64] (replicate 64 0)
              = Some (map S [0..<64])"
    by (rule run_threads_fill) simp_all
  obtain tmp' where t': "tree_reduce 64 (map S [0..<64]) = Some tmp'" "length tmp' = 64"
    "tmp' ! 0 = (\<Sum>t<64. map S [0..<64] ! t)"
    using tree_reduce_64[of "map S [0..<64]"] by auto
  have "(\<Sum>t<64. map S [0..<64] ! t) = (\<Sum>t<64. S t)"
    by (intro sum.cong) (simp_all del: upt_Suc)
  also have "\<dots> = (\<Sum>j = nat rs..<nat re. f j)"
    unfolding S_def by (rule sum_strided) simp
  finally have v: "tmp' ! 0 = (\<Sum>j = nat rs..<nat re. f j)" using t' by simp
  show ?thesis
    unfolding th bind.bind_lunit fill t'(1)
    using t'(2) v by (simp add: rs_def re_def f_def)
qed

lemma next_rows:
  assumes "b + G < 2147483648"
  shows "map (\<lambda>r. s32 (wrap32 (u32 r + G))) (replicate 64 (int b)) = replicate 64 (int (b + G))"
proof -
  have "u32 (int b) = b" using assms by (simp add: u32_int)
  then have "s32 (wrap32 (u32 (int b) + G)) = int (b + G)" using assms by (simp add: wrap32_id s32_id)
  then show ?thesis by (simp only: map_replicate)
qed

lemma spmv_k_group_row:
  assumes b: "b < G" "G \<le> 67108864"
    and N: "0 \<le> N" "N \<le> int G" "nat N < length rows"
    and rows: "\<forall>row<nat N. 0 \<le> rows ! row \<and> rows ! row \<le> rows ! (row + 1)
                 \<and> nat (rows ! (row + 1)) \<le> length cols"
    and len: "length cols \<le> length vals" "length cols + 64 \<le> 2147483648"
    and cols: "\<forall>j<length cols. 0 \<le> cols ! j \<and> nat (cols ! j) < length x"
    and out: "nat N \<le> length out"
  shows "spmv_k_group G 64 64 b vals cols rows N x out =
         Some (if b < nat N
               then out[b := \<Sum>j = nat (rows ! b)..<nat (rows ! (b + 1)). vals ! j * x ! nat (cols ! j)]
               else out)"
proof -
  have b': "b < 67108864" using b by simp
  have g: "spmv_k_group G 64 64 b vals cols rows N x out = map_option (snd \<circ> snd)
          (while_loop (\<lambda>(row, tmp, out). list_ex (\<lambda>r. r < N) row)
             (spmv_k_step G 64 vals cols rows N x)
             (replicate 64 (int b), replicate 64 0, out))"
    unfolding spmv_k_group_def Let_def group_rows_uniform[OF b'] ..
  show ?thesis
  proof (cases "b < nat N")
    case False
    then have "\<not> int b < N" by linarith
    then show ?thesis using False unfolding g
      by (subst while_loop.simps) (simp add: list_ex_replicate)
  next
    case True
    then have bN: "int b < N" by linarith
    let ?v = "\<Sum>j = nat (rows ! b)..<nat (rows ! (b + 1)). vals ! j * x ! nat (cols ! j)"
    from row_sums_reduced[OF True N(3) rows len cols]
    obtain tmp' where red: "do {
            local_sum \<leftarrow> those (map (\<lambda>idx_t. do {
                rowStart \<leftarrow> rdi rows (replicate 64 (int b) ! idx_t);
                rowEnd \<leftarrow> rdi rows (replicate 64 (int b) ! idx_t + 1);
                row_local_sum vals cols x rowStart rowEnd 64 idx_t }) [0..<64]);
            tmp \<leftarrow> run_threads (\<lambda>idx_t tmp. wr tmp idx_t (local_sum ! idx_t)) [0..<64] (replicate 64 0);
            tree_reduce 64 tmp } = Some tmp'"
      and tl: "length tmp' = 64" and tv: "tmp' ! 0 = ?v" by blast
    have w: "run_threads (\<lambda>idx_t out.
                   if idx_t = 0
                   then do { v \<leftarrow> rd tmp' idx_t; wri out (replicate 64 (int b) ! idx_t) v }
                   else Some out) [0..<64] out = Some (out[b := ?v])"
    proof -
      have "run_threads (\<lambda>idx_t out.
                   if idx_t = 0
                   then do { v \<leftarrow> rd tmp' 0; wri out (replicate 64 (int b) ! 0) v }
                   else Some out) [0..<Suc 63] out
            = do { v \<leftarrow> rd tmp' 0; wri out (replicate 64 (int b) ! 0) v }"
        by (rule run_threads_only_first)
      moreover have "do { v \<leftarrow> rd tmp' 0; wri out (replicate 64 (int b) ! 0) v } = Some (out[b := ?v])"
        using tl tv True out by (simp add: rd_def wri_def wr_def)
      moreover have "(\<lambda>idx_t out.
                   if idx_t = 0
                   then do { v \<leftarrow> rd tmp' idx_t; wri out (replicate 64 (int b) ! idx_t) v }
                   else Some out) = (\<lambda>idx_t out.
                   if idx_t = 0
                   then do { v \<leftarrow> rd tmp' 0; wri out (replicate 64 (int b) ! 0) v }
                   else Some out)" by (intro ext) simp
      moreover have "[0..<64] = [0..<Suc 63]" by simp
      ultimately show ?thesis by (simp only:)
    qed
    have "b + G < 2147483648" using b by simp
    note nr = next_rows[OF this]
    have step: "spmv_k_step G 64 vals cols rows N x (replicate 64 (int b), replicate 64 0, out)
                = Some (replicate 64 (int (b + G)), tmp', out[b := ?v])"
    proof -
      have "spmv_k_step G 64 vals cols rows N x (replicate 64 (int b), replicate 64 0, out)
          = do {
            tmp \<leftarrow> do {
              local_sum \<leftarrow> those (map (\<lambda>idx_t. do {
                rowStart \<leftarrow> rdi rows (replicate 64 (int b) ! idx_t);
                rowEnd \<leftarrow> rdi rows (replicate 64 (int b) ! idx_t + 1);
                row_local_sum vals cols x rowStart rowEnd 64 idx_t }) [0..<64]);
              tmp \<leftarrow> run_threads (\<lambda>idx_t tmp. wr tmp idx_t (local_sum ! idx_t)) [0..<64] (replicate 64 0);
              tree_reduce 64 tmp };
            out \<leftarrow> run_threads
               (\<lambda>idx_t out.
                   if idx_t = 0
                   then do { v \<leftarrow> rd tmp idx_t; wri out (replicate 64 (int b) ! idx_t) v }
                   else Some out) [0..<64] out;
            Some (map (\<lambda>r. s32 (wrap32 (u32 r + G))) (replicate 64 (int b)), tmp, out) }"
        unfolding spmv_k_step_def split_conv Let_def using bN
        by (simp only: list_all_replicate if_not_P if_P not_not simp_thms bind_assoc)
      then show ?thesis unfolding red bind.bind_lunit w nr .
    qed
    have "\<not> int (b + G) < N" using N by linarith
    then show ?thesis using True bN unfolding g
      apply (subst while_loop.simps)
      apply (simp add: list_ex_replicate step del: upt_Suc)
      apply (subst while_loop.simps)
      apply (simp add: list_ex_replicate del: upt_Suc)
      done
  qed
qed

lemma residual_k_group_row:
  assumes b: "b < G" "G \<le> 67108864"
    and N: "0 \<le> N" "N \<le> int G" "nat N < length rows"
    and rows: "\<forall>row<nat N. 0 \<le> rows ! row \<and> rows ! row \<le> rows ! (row + 1)
                 \<and> nat (rows ! (row + 1)) \<le> length cols"
    and len: "length cols \<le> length vals" "length cols + 64 \<le> 2147483648"
    and cols: "\<forall>j<length cols. 0 \<le> cols ! j \<and> nat (cols ! j) < length x"
    and out: "nat N \<le> length out" "nat N \<le> length rhs"
  shows "residual_k_group G 64 64 b vals cols rows N x rhs out =
         Some (if b < nat N
               then out[b := rhs ! b
                          - (\<Sum>j = nat (rows ! b)..<nat (rows ! (b + 1)). vals ! j * x ! nat (cols ! j))]
               else out)"
proof -
  have b': "b < 67108864" using b by simp
  have g: "residual_k_group G 64 64 b vals cols rows N x rhs out = map_option (snd \<circ> snd)
          (while_loop (\<lambda>(row, tmp, out). list_ex (\<lambda>r. r < N) row)
             (residual_k_step G 64 vals cols rows N x rhs)
             (replicate 64 (int b), replicate 64 0, out))"
    unfolding residual_k_group_def Let_def group_rows_uniform[OF b'] ..
  show ?thesis
  proof (cases "b < nat N")
    case False
    then have "\<not> int b < N" by linarith
    then show ?thesis using False unfolding g
      by (subst while_loop.simps) (simp add: list_ex_replicate)
  next
    case True
    then have bN: "int b < N" by linarith
    let ?v = "\<Sum>j = nat (rows ! b)..<nat (rows ! (b + 1)). vals ! j * x ! nat (cols ! j)"
    from row_sums_reduced[OF True N(3) rows len cols]
    obtain tmp' where red: "do {
            local_sum \<leftarrow> those (map (\<lambda>idx_t. do {
                rowStart \<leftarrow> rdi rows (replicate 64 (int b) ! idx_t);
                rowEnd \<leftarrow> rdi rows (replicate 64 (int b) ! idx_t + 1);
                row_local_sum vals cols x rowStart rowEnd 64 idx_t }) [0..<64]);
            tmp \<leftarrow> run_threads (\<lambda>idx_t tmp. wr tmp idx_t (local_sum ! idx_t)) [0..<64] (replicate 64 0);
            tree_reduce 64 tmp } = Some tmp'"
      and tl: "length tmp' = 64" and tv: "tmp' ! 0 = ?v" by blast
    have w: "run_threads (\<lambda>idx_t out.
                   if idx_t = 0
                   then do { b' \<leftarrow> rdi rhs (replicate 64 (int b) ! idx_t);
                             v \<leftarrow> rd tmp' idx_t;
                             wri out (replicate 64 (int b) ! idx_t) (b' - v) }
                   else Some out) [0..<64] out = Some (out[b := rhs ! b - ?v])"
    proof -
      have "run_threads (\<lambda>idx_t out.
                   if idx_t = 0
                   then do { b' \<leftarrow> rdi rhs (replicate 64 (int b) ! 0);
                             v \<leftarrow> rd tmp' 0;
                             wri out (replicate 64 (int b) ! 0) (b' - v) }
                   else Some out) [0..<Suc 63] out
            = do { b' \<leftarrow> rdi rhs (replicate 64 (int b) ! 0);
                   v \<leftarrow> rd tmp' 0;
                   wri out (replicate 64 (int b) ! 0) (b' - v) }"
        by (rule run_threads_only_first)
      moreover have "do { b' \<leftarrow> rdi rhs (replicate 64 (int b) ! 0);
                   v \<leftarrow> rd tmp' 0;
                   wri out (replicate 64 (int b) ! 0) (b' - v) } = Some (out[b := rhs ! b - ?v])"
        using tl tv True out by (simp add: rd_def rdi_def wri_def wr_def)
      moreover have "(\<lambda>idx_t out.
                   if idx_t = 0
                   then do { b' \<leftarrow> rdi rhs (replicate 64 (int b) ! idx_t);
                             v \<leftarrow> rd tmp' idx_t;
                             wri out (replicate 64 (int b) ! idx_t) (b' - v) }
                   else Some out) = (\<lambda>idx_t out.
                   if idx_t = 0
                   then do { b' \<leftarrow> rdi rhs (replicate 64 (int b) ! 0);
                             v \<leftarrow> rd tmp' 0;
                             wri out (replicate 64 (int b) ! 0) (b' - v) }
                   else Some out)" by (intro ext) simp
      moreover have "[0..<64] = [0..<Suc 63]" by simp
      ultimately show ?thesis by (simp only:)
    qed
    have "b + G < 2147483648" using b by simp
    note nr = next_rows[OF this]
    have step: "residual_k_step G 64 vals cols rows N x rhs (replicate 64 (int b), replicate 64 0, out)
                = Some (replicate 64 (int (b + G)), tmp', out[b := rhs ! b - ?v])"
    proof -
      have "residual_k_step G 64 vals cols rows N x rhs (replicate 64 (int b), replicate 64 0, out)
          = do {
            tmp \<leftarrow> do {
              local_sum \<leftarrow> those (map (\<lambda>idx_t. do {
                rowStart \<leftarrow> rdi rows (replicate 64 (int b) ! idx_t);
                rowEnd \<leftarrow> rdi rows (replicate 64 (int b) ! idx_t + 1);
                row_local_sum vals cols x rowStart rowEnd 64 idx_t }) [0..<64]);
              tmp \<leftarrow> run_threads (\<lambda>idx_t tmp. wr tmp idx_t (local_sum ! idx_t)) [0..<64] (replicate 64 0);
              tree_reduce 64 tmp };
            out \<leftarrow> run_threads
               (\<lambda>idx_t out.
                   if idx_t = 0
                   then do { b' \<leftarrow> rdi rhs (replicate 64 (int b) ! idx_t);
                             v \<leftarrow> rd tmp idx_t;
                             wri out (replicate 64 (int b) ! idx_t) (b' - v) }
                   else Some out) [0..<64] out;
            Some (map (\<lambda>r. s32 (wrap32 (u32 r + G))) (replicate 64 (int b)), tmp, out) }"
        unfolding residual_k_step_def split_conv Let_def using bN
        by (simp only: list_all_replicate if_not_P if_P not_not simp_thms bind_assoc)
      then show ?thesis unfolding red bind.bind_lunit w nr .
    qed
    have "\<not> int (b + G) < N" using N by linarith
    then show ?thesis using True bN unfolding g
      apply (subst while_loop.simps)
      apply (simp add: list_ex_replicate step del: upt_Suc)
      apply (subst while_loop.simps)
      apply (simp add: list_ex_replicate del: upt_Suc)
      done
  qed
qed

text \<open>Groups that each write one slot of their own, the value not depending on the array.\<close>

lemma run_groups_rows:
  fixes out :: vec
  assumes grp: "\<And>b s. b < G \<Longrightarrow> length s = length out \<Longrightarrow>
                  grp b s = Some (if b < N then s[b := v b] else s)"
    and N: "N \<le> G" "N \<le> length out"
  shows "run_threads grp [0..<G] out =
         Some (map (\<lambda>row. if row < N then v row else out ! row) [0..<length out])"
proof -
  have "\<exists>s'. run_threads grp [0..<G] out = Some s' \<and> length s' = length out \<and>
           (\<forall>g<min G N. g < length out \<longrightarrow> s' ! g = v g) \<and>
           (\<forall>i<length out. i \<notin> (\<lambda>g. g) ` {..<min G N} \<longrightarrow> s' ! i = out ! i)"
    by (rule run_threads_scatter[where ix="\<lambda>g. g" and h="\<lambda>g x. v g" and N=N and f=grp
          and L="length out" and n=G and ?s0.0=out]) (simp_all add: grp)
  then obtain s' where s': "run_threads grp [0..<G] out = Some s'" "length s' = length out"
    "\<forall>g<min G N. g < length out \<longrightarrow> s' ! g = v g"
    "\<forall>i<length out. i \<notin> {..<min G N} \<longrightarrow> s' ! i = out ! i" by auto
  have m: "min G N = N" using N by simp
  have "s' = map (\<lambda>row. if row < N then v row else out ! row) [0..<length out]"
    using s' N by (intro nth_equalityI) (auto simp: m)
  then show ?thesis using s' by simp
qed

lemma spmv_result:
  assumes N: "0 \<le> Nb" "Nb \<le> 67108864" "nat Nb < length rows"
    and rows: "\<forall>row<nat Nb. 0 \<le> rows ! row \<and> rows ! row \<le> rows ! (row + 1)
                 \<and> nat (rows ! (row + 1)) \<le> length cols"
    and len: "length cols \<le> length vals" "length cols + 64 \<le> 2147483648"
    and cols: "\<forall>j<length cols. 0 \<le> cols ! j \<and> nat (cols ! j) < length x"
    and out: "nat Nb \<le> length y"
  shows "spmv True vals cols rows x y Nb block_size =
         Completed (map (\<lambda>row. if row < nat Nb then row_product vals cols rows x row else y ! row)
                      [0..<length y])"
proof -
  let ?G = "wrap32 (ceilDivision (u32 Nb) 64 * 64)"
  have h: "u32 Nb = nat Nb" "nat Nb \<le> ?G" "?G \<le> 64 * 1048576"
    using host_grid[of Nb 1048576] N by simp_all
  have G: "?G \<le> 67108864" "Nb \<le> int ?G" using h N by linarith+
  have "run_threads (\<lambda>b. spmv_k_group ?G 64 64 b vals cols rows Nb x) [0..<?G] y =
         Some (map (\<lambda>row. if row < nat Nb then row_product vals cols rows x row else y ! row)
                 [0..<length y])"
  proof (rule run_groups_rows)
    fix b and s :: vec assume "b < ?G" "length s = length y"
    then show "spmv_k_group ?G 64 64 b vals cols rows Nb x s =
          Some (if b < nat Nb then s[b := row_product vals cols rows x b] else s)"
      unfolding row_product_def
      using G N rows len cols out by (intro spmv_k_group_row) simp_all
  qed (use h out in simp_all)
  then show ?thesis
    by (simp add: spmv_def spmv_k_def Let_def wrap32_def)
qed

lemma residual_scalar_result:
  assumes N: "0 \<le> Nb" "Nb \<le> 67108864" "nat Nb < length rows"
    and rows: "\<forall>row<nat Nb. 0 \<le> rows ! row \<and> rows ! row \<le> rows ! (row + 1)
                 \<and> nat (rows ! (row + 1)) \<le> length cols"
    and len: "length cols \<le> length vals" "length cols + 64 \<le> 2147483648"
    and cols: "\<forall>j<length cols. 0 \<le> cols ! j \<and> nat (cols ! j) < length x"
    and out: "nat Nb \<le> length out" "nat Nb \<le> length rhs"
    and bs: "block_size \<le> 1"
  shows "residual True warpSize vals cols rows x rhs out Nb block_size =
         Completed (map (\<lambda>row. if row < nat Nb then rhs ! row - row_product vals cols rows x row
                               else out ! row) [0..<length out])"
proof -
  let ?G = "wrap32 (ceilDivision (u32 Nb) 64 * 64)"
  have h: "u32 Nb = nat Nb" "nat Nb \<le> ?G" "?G \<le> 64 * 1048576"
    using host_grid[of Nb 1048576] N by simp_all
  have G: "?G \<le> 67108864" "Nb \<le> int ?G" using h N by linarith+
  have "run_threads (\<lambda>b. residual_k_group ?G 64 64 b vals cols rows Nb x rhs) [0..<?G] out =
         Some (map (\<lambda>row. if row < nat Nb then rhs ! row - row_product vals cols rows x row
                               else out ! row) [0..<length out])"
  proof (rule run_groups_rows)
    fix b and s :: vec assume "b < ?G" "length s = length out"
    then show "residual_k_group ?G 64 64 b vals cols rows Nb x rhs s =
          Some (if b < nat Nb then s[b := rhs ! b - row_product vals cols rows x b] else s)"
      unfolding row_product_def
      using G N rows len cols out by (intro residual_k_group_row) simp_all
  qed (use h out in simp_all)
  then show ?thesis using bs
    by (simp add: residual_def residual_k_def Let_def wrap32_def)
qed

subsection \<open>Well-formed matrices\<close>

lemma bsr_matrix_rows:
  assumes "bsr_matrix Nb bs vals cols rows" "row < Nb"
  shows "0 \<le> rows ! row" "rows ! row \<le> rows ! (row + 1)" "nat (rows ! (row + 1)) \<le> length cols"
proof -
  have l: "length rows = Nb + 1" and z: "rows ! 0 = 0" and s: "sorted rows"
    and e: "rows ! Nb = int (length cols)"
    using assms by (simp_all add: bsr_matrix_def)
  have "rows ! 0 \<le> rows ! row" using s l assms(2) by (intro sorted_nth_mono) simp_all
  then show "0 \<le> rows ! row" using z by simp
  show "rows ! row \<le> rows ! (row + 1)" using s l assms(2) by (intro sorted_nth_mono) simp_all
  have "rows ! (row + 1) \<le> rows ! Nb" using s l assms(2) by (intro sorted_nth_mono) simp_all
  then show "nat (rows ! (row + 1)) \<le> length cols" using e by simp
qed

lemma bsr_matrix_cols:
  assumes "bsr_matrix Nb bs vals cols rows" "j < length cols"
  shows "0 \<le> cols ! j" "nat (cols ! j) < Nb"
  using assms by (auto simp: bsr_matrix_def list_all_length)

lemma ref_spmv_scalar:
  "ref_spmv Nb 1 vals cols rows x = map (row_product vals cols rows x) [0..<Nb]"
  by (simp add: ref_spmv_def row_product_def interv_sum_list_conv_sum_set_nat)

lemma spmv_scalar:
  assumes m: "bsr_matrix Nb 1 vals cols rows"
    and b: "Nb \<le> 67108864" "length cols + 64 \<le> 2147483648"
    and l: "length x = Nb" "length y = Nb"
  shows "spmv True vals cols rows x y (int Nb) block_size = Completed (ref_spmv Nb 1 vals cols rows x)"
proof -
  have "spmv True vals cols rows x y (int Nb) block_size =
         Completed (map (\<lambda>row. if row < nat (int Nb) then row_product vals cols rows x row else y ! row)
                      [0..<length y])"
  proof (rule spmv_result)
    show "\<forall>row<nat (int Nb). 0 \<le> rows ! row \<and> rows ! row \<le> rows ! (row + 1)
                 \<and> nat (rows ! (row + 1)) \<le> length cols"
      using bsr_matrix_rows[OF m] by simp
    show "\<forall>j<length cols. 0 \<le> cols ! j \<and> nat (cols ! j) < length x"
      using bsr_matrix_cols[OF m] l by simp
  qed (use m b l in \<open>simp_all add: bsr_matrix_def\<close>)
  also have "map (\<lambda>row. if row < nat (int Nb) then row_product vals cols rows x row else y ! row)
                      [0..<length y] = ref_spmv Nb 1 vals cols rows x"
    unfolding ref_spmv_scalar using l by (intro nth_equalityI) simp_all
  finally show ?thesis .
qed

lemma residual_scalar:
  assumes m: "bsr_matrix Nb 1 vals cols rows"
    and b: "Nb \<le> 67108864" "length cols + 64 \<le> 2147483648"
    and l: "length x = Nb" "length rhs = Nb" "length out = Nb"
  shows "residual True warpSize vals cols rows x rhs out (int Nb) 1 =
         Completed (map2 (-) rhs (ref_spmv Nb 1 vals cols rows x))"
proof -
  have "residual True warpSize vals cols rows x rhs out (int Nb) 1 =
         Completed (map (\<lambda>row. if row < nat (int Nb) then rhs ! row - row_product vals cols rows x row
                               else out ! row) [0..<length out])"
  proof (rule residual_scalar_result)
    show "\<forall>row<nat (int Nb). 0 \<le> rows ! row \<and> rows ! row \<le> rows ! (row + 1)
                 \<and> nat (rows ! (row + 1)) \<le> length cols"
      using bsr_matrix_rows[OF m] by simp
    show "\<forall>j<length cols. 0 \<le> cols ! j \<and> nat (cols ! j) < length x"
      using bsr_matrix_cols[OF m] l by simp
  qed (use m b l in \<open>simp_all add: bsr_matrix_def\<close>)
  also have "map (\<lambda>row. if row < nat (int Nb) then rhs ! row - row_product vals cols rows x row
                               else out ! row) [0..<length out]
             = map2 (-) rhs (ref_spmv Nb 1 vals cols rows x)"
    unfolding ref_spmv_scalar using l by (intro nth_equalityI) simp_all
  finally show ?thesis .
qed

lemma example_matrix: "bsr_matrix 2 1 [4, 1, 2, 3] [0, 1, 0, 1] [0, 2, 4]"
  by (simp add: bsr_matrix_def)

lemma example_product: "ref_spmv 2 1 [4, 1, 2, 3] [0, 1, 0, 1] [0, 2, 4] [1, 1] = [5, 5]"
  by (simp add: ref_spmv_def upt_conv_Cons)

subsection \<open>residual_blocked_k, for blocks of size 3 and groups of one wavefront\<close>

lemma width_cases:
  assumes "W = 32 \<or> W = 64"
  shows "W div 9 = 3 \<or> W div 9 = 7" "0 < W div 9" "W div 9 \<le> 7" "W div 9 * 9 \<le> W" "W \<le> 64"
    "0 < W" "3 \<le> W" "W div 3 div 3 = W div 9" "wrap32 (wrap32 (W div 9 * 3) * 3) = W div 9 * 9"
  using assms by (auto simp: wrap32_def)

lemma blocked_local_out_active:
  assumes W: "W = 32 \<or> W = 64"
    and t: "t < W div 9 * 9"
    and row: "row + 1 < length rows" "row + 1 < 4294967296"
    and r: "0 \<le> rows ! row" "rows ! row \<le> rows ! (row + 1)" "nat (rows ! (row + 1)) \<le> length cols"
    and len: "length cols * 9 \<le> length vals" "length vals < 4294967296"
    and cols: "\<forall>j<length cols. 0 \<le> cols ! j \<and> nat (cols ! j) * 3 + 3 \<le> length x"
    and lx: "length x < 4294967296"
  shows "blocked_local_out W 3 vals cols rows x row t =
         Some (\<Sum>block\<in>strided (nat (rows ! row)) (nat (rows ! (row + 1))) (W div 9) (t div 9).
                      block_term vals cols x ((t div 3) mod 3) (t mod 3) block)"
proof -
  define K where "K = W div 9"
  note wc = width_cases[OF W, folded K_def]
  define lo hi where "lo = nat (rows ! row)" and "hi = nat (rows ! (row + 1))"
  define c rr sl where "c = (t div 3) mod 3" and "rr = t mod 3" and "sl = t div 9"
  define f where "f = block_term vals cols x c rr"
  define I where "I = (\<lambda>(j, acc). lo + sl \<le> j \<and> (j - lo) mod K = sl
     \<and> j < hi + K \<and> acc = (\<Sum>i\<in>strided lo (min j hi) K sl. f i))"
  define body :: "nat \<times> real \<Rightarrow> (nat \<times> real) option" where "body = (\<lambda>(block, local_out). do {
                col \<leftarrow> rd cols block;
                x_elem \<leftarrow> rd x (wrap32 (wrap32 (u32 col * 3) + c));
                A_elem \<leftarrow> rd vals (wrap32 (wrap32 (wrap32 (wrap32 (block * 3) * 3) + c)
                                     + wrap32 (rr * 3)));
                Some (wrap32 (block + K), local_out + x_elem * A_elem) })"
  have lohi: "lo \<le> hi" "hi \<le> length cols" using r by (simp_all add: lo_def hi_def)
  have big: "hi * 9 < 4294967296" using lohi len by linarith
  have tK: "t < K * 9" using t by (simp add: K_def)
  then have sl: "sl < K" unfolding sl_def by (rule less_mult_imp_div_less)
  have crr: "c < 3" "rr < 3" by (simp_all add: c_def rr_def)
  have u: "u32 (rows ! row) = lo" "u32 (rows ! (row + 1)) = hi"
  proof -
    have "rows ! (row + 1) < 4294967296" using big by (simp add: hi_def)
    then show "u32 (rows ! row) = lo" "u32 (rows ! (row + 1)) = hi"
      using r by (simp_all add: u32_id lo_def hi_def)
  qed
  have init: "I (lo + sl, 0)"
    unfolding I_def split_conv using sl lohi(1) by (simp add: strided_empty)
  have step: "\<exists>s'. body s = Some s' \<and> I s' \<and> (s', s) \<in> measure (\<lambda>(j, acc). hi + K - j)"
    if "I s" "(\<lambda>(block, local_out). block < hi) s" for s
  proof -
    obtain j acc where s: "s = (j, acc)" by (cases s)
    from that s have I: "lo + sl \<le> j" "(j - lo) mod K = sl" "j < hi + K"
      "acc = (\<Sum>i\<in>strided lo (min j hi) K sl. f i)" and jh: "j < hi"
      by (simp_all add: I_def)
    have jc: "j < length cols" using jh lohi by simp
    have col: "0 \<le> cols ! j" "nat (cols ! j) * 3 + 3 \<le> length x" using cols jc by simp_all
    have ucol: "u32 (cols ! j) = nat (cols ! j)"
    proof -
      have "nat (cols ! j) < 4294967296" using col lx by linarith
      then show ?thesis using col by (simp add: u32_id)
    qed
    have xi: "wrap32 (wrap32 (u32 (cols ! j) * 3) + c) = nat (cols ! j) * 3 + c"
      "nat (cols ! j) * 3 + c < length x"
    proof -
      have "nat (cols ! j) * 3 + c < length x" using col crr by linarith
      moreover have "nat (cols ! j) * 3 + c < 4294967296" using calculation lx by linarith
      ultimately show "wrap32 (wrap32 (u32 (cols ! j) * 3) + c) = nat (cols ! j) * 3 + c"
        "nat (cols ! j) * 3 + c < length x"
        by (simp_all add: ucol wrap32_id)
    qed
    have vi: "wrap32 (wrap32 (wrap32 (wrap32 (j * 3) * 3) + c) + wrap32 (rr * 3)) = j * 9 + c + rr * 3"
      "j * 9 + c + rr * 3 < length vals"
    proof -
      have a: "j * 9 + c + rr * 3 < hi * 9" using jh crr by linarith
      then have b: "j * 9 + c + rr * 3 < 4294967296" using big by linarith
      show "j * 9 + c + rr * 3 < length vals" using a lohi len by linarith
      have "j * 3 < 4294967296" "j * 3 * 3 < 4294967296" "j * 3 * 3 + c < 4294967296"
        "rr * 3 < 4294967296" "j * 3 * 3 + c + rr * 3 < 4294967296"
        using b by linarith+
      then show "wrap32 (wrap32 (wrap32 (wrap32 (j * 3) * 3) + c) + wrap32 (rr * 3)) = j * 9 + c + rr * 3"
        by (simp add: wrap32_id)
    qed
    have nxt: "wrap32 (j + K) = j + K" using jh big wc(3) by (simp add: wrap32_id)
    have b: "body s = Some (j + K, acc + f j)"
      unfolding body_def s split_conv
      using jc xi(2) vi(2) by (simp add: rd_def f_def block_term_def xi(1) vi(1) nxt)
    have m: "(j + K - lo) mod K = sl"
    proof -
      have "j + K - lo = (j - lo) + K" using I(1) by simp
      then have "(j + K - lo) mod K = (j - lo) mod K" by (simp only: mod_add_self2)
      then show ?thesis using I(2) by simp
    qed
    have st: "strided lo (min (j + K) hi) K sl = insert j (strided lo (min j hi) K sl)"
      using I sl jh by (intro strided_step) simp_all
    have notin: "j \<notin> strided lo (min j hi) K sl" by (simp add: strided_def)
    have "I (j + K, acc + f j)"
      unfolding I_def split_conv st using I jh m notin by (simp add: min_absorb1)
    moreover have "((j + K, acc + f j), s) \<in> measure (\<lambda>(j, acc). hi + K - j)"
      using jh wc(2) by (simp add: s)
    ultimately show ?thesis using b by blast
  qed
  from while_loop_rule[where I=I and c="\<lambda>(block, local_out). block < hi" and f=body,
      OF wf_measure init step]
  obtain s' where s': "while_loop (\<lambda>(block, local_out). block < hi) body (lo + sl, 0) = Some s'"
    "I s'" "\<not> (\<lambda>(block, local_out). block < hi) s'" by blast
  obtain j acc where jl: "s' = (j, acc)" by (cases s')
  have "hi \<le> j" using s'(3) jl by simp
  then have acc: "acc = (\<Sum>i\<in>strided lo hi K sl. f i)" using s'(2) jl by (simp add: I_def)
  have k9: "wrap32 (3 * 3) = 9" by (simp add: wrap32_def)
  have b0: "wrap32 (lo + t div 9) = lo + sl"
  proof -
    have "lo + sl < 4294967296" using sl lohi big wc(3) by linarith
    then show ?thesis by (simp add: wrap32_id sl_def)
  qed
  have rr: "rd rows row = Some (rows ! row)" "rd rows (wrap32 (row + 1)) = Some (rows ! (row + 1))"
    using row by (simp_all add: rd_def wrap32_id)
  have tm: "t mod W = t" using tK wc(4) by simp
  show ?thesis
    unfolding blocked_local_out_def Let_def wc(8) wc(9) k9 tm rr option.map bind.bind_lunit u b0
      c_def[symmetric] rr_def[symmetric] body_def[symmetric] s' jl
    using tK by (simp add: acc f_def lo_def hi_def sl_def K_def)
qed

lemma blocked_local_out_idle:
  assumes W: "W = 32 \<or> W = 64"
    and t: "W div 9 * 9 \<le> t" "t < W"
    and row: "row + 1 < length rows" "row + 1 < 4294967296"
  shows "blocked_local_out W 3 vals cols rows x row t = Some 0"
proof -
  note wc = width_cases[OF W]
  have rr: "rd rows row = Some (rows ! row)" "rd rows (wrap32 (row + 1)) = Some (rows ! (row + 1))"
    using row by (simp_all add: rd_def wrap32_id)
  have tm: "t mod W = t" using t by simp
  show ?thesis
    unfolding blocked_local_out_def Let_def wc(8) wc(9) tm rr option.map bind.bind_lunit using t by simp
qed

lemma length_shifted [simp]: "length (shifted W off tmp) = W"
  by (simp add: shifted_def)

lemma shifted_nth:
  "l < W \<Longrightarrow> shifted W off tmp ! l = (if l + off < W then tmp ! l + tmp ! (l + off) else tmp ! l)"
  by (simp add: shifted_def del: upt_Suc)

lemma lockstep_shifted:
  fixes tmp :: vec
  assumes l: "length tmp = W" and off: "off < 2147483648" and W: "W \<le> 64"
  shows "lockstep [0..<W]
           (\<lambda>idx_t old cur.
               let lane = idx_t mod W
               in if wrap32 (lane + off) < W
                  then do {
                    a \<leftarrow> rd old lane;
                    b \<leftarrow> rd old (wrap32 (lane + off));
                    wr cur lane (a + b) }
                  else Some cur) tmp
         = Some (shifted W off tmp)"
proof -
  let ?stmt = "\<lambda>idx_t cur.
               let lane = idx_t mod W
               in if wrap32 (lane + off) < W
                  then do {
                    a \<leftarrow> rd tmp lane;
                    b \<leftarrow> rd tmp (wrap32 (lane + off));
                    wr cur lane (a + b) }
                  else Some cur"
  have "\<exists>s'. run_threads ?stmt [0..<W] tmp = Some s' \<and> length s' = W \<and>
           (\<forall>g<min W (W - off). g < W \<longrightarrow> s' ! g = tmp ! g + tmp ! (g + off)) \<and>
           (\<forall>i<W. i \<notin> (\<lambda>g. g) ` {..<min W (W - off)} \<longrightarrow> s' ! i = tmp ! i)"
  proof (rule run_threads_scatter[where ix="\<lambda>g. g" and h="\<lambda>g v. tmp ! g + tmp ! (g + off)"
        and N="W - off" and L=W and n=W and ?s0.0=tmp and f="?stmt"])
    fix g :: nat and s :: vec assume g: "g < W" and ls: "length s = W"
    have w: "wrap32 (g + off) = g + off" using g off W by (simp add: wrap32_id)
    show "?stmt g s = Some (if g < W - off then s[g := tmp ! g + tmp ! (g + off)] else s)"
      using g ls l by (auto simp: Let_def w rd_def wr_def)
  qed (simp_all add: l)
  then obtain s' where s': "run_threads ?stmt [0..<W] tmp = Some s'" "length s' = W"
    "\<forall>g<min W (W - off). s' ! g = tmp ! g + tmp ! (g + off)"
    "\<forall>i<W. i \<notin> {..<min W (W - off)} \<longrightarrow> s' ! i = tmp ! i" by auto
  have "s' = shifted W off tmp"
  proof (intro nth_equalityI)
    fix i assume "i < length s'"
    then have i: "i < W" using s' by simp
    show "s' ! i = shifted W off tmp ! i"
    proof (cases "i + off < W")
      case True
      then have "i < min W (W - off)" by simp
      then show ?thesis using s'(3) True i by (simp add: shifted_nth)
    next
      case False
      then have "i \<notin> {..<min W (W - off)}" by simp
      then show ?thesis using s'(4) False i by (simp add: shifted_nth)
    qed
  qed (simp add: s')
  then show ?thesis using s' by (simp add: lockstep_def)
qed

lemma blocked_reduce_step:
  fixes t :: vec
  assumes "length t = W" "off < 2147483648" "W \<le> 64"
  shows "(do { tmp' \<leftarrow> lockstep [0..<W]
                 (\<lambda>idx_t old cur.
                     let lane = idx_t mod W
                     in if wrap32 (lane + off) < W
                        then do {
                          a \<leftarrow> rd old lane;
                          b \<leftarrow> rd old (wrap32 (lane + off));
                          wr cur lane (a + b) }
                        else Some cur) t;
              Some (wrap32 (off * 2), tmp') }) = Some (off * 2, shifted W off t)"
  unfolding lockstep_shifted[OF assms] using assms(2) by (simp add: wrap32_id)

lemma blocked_reduce_64:
  fixes tmp :: vec
  assumes l: "length tmp = 64"
  shows "blocked_reduce 64 [0..<64] tmp =
         Some (shifted 64 48 (shifted 64 24 (shifted 64 12 (shifted 64 6 (shifted 64 3 tmp)))))"
proof -
  define body :: "nat \<times> vec \<Rightarrow> (nat \<times> vec) option" where "body = (\<lambda>(offset, tmp). do {
              tmp' \<leftarrow> lockstep [0..<64]
                 (\<lambda>idx_t old cur.
                     let lane = idx_t mod 64
                     in if wrap32 (lane + offset) < 64
                        then do {
                          a \<leftarrow> rd old lane;
                          b \<leftarrow> rd old (wrap32 (lane + offset));
                          wr cur lane (a + b) }
                        else Some cur) tmp;
              Some (wrap32 (offset * 2), tmp') })"
  have step: "body (off, t) = Some (off * 2, shifted 64 off t)"
    if "length t = 64" "off < 2147483648" for off and t :: vec
    unfolding body_def split_conv using that by (intro blocked_reduce_step) simp_all
  have "while_loop (\<lambda>(offset, tmp). offset \<le> 48) body (3, tmp)
        = Some (96, shifted 64 48 (shifted 64 24 (shifted 64 12 (shifted 64 6 (shifted 64 3 tmp)))))"
    apply (subst while_loop.simps, simp add: step l)
    apply (subst while_loop.simps, simp add: step)
    apply (subst while_loop.simps, simp add: step)
    apply (subst while_loop.simps, simp add: step)
    apply (subst while_loop.simps, simp add: step)
    apply (subst while_loop.simps, simp)
    done
  then show ?thesis
    unfolding blocked_reduce_def Let_def body_def by simp
qed

lemma blocked_reduce_32:
  fixes tmp :: vec
  assumes l: "length tmp = 32"
  shows "blocked_reduce 32 [0..<32] tmp =
         Some (shifted 32 24 (shifted 32 12 (shifted 32 6 (shifted 32 3 tmp))))"
proof -
  define body :: "nat \<times> vec \<Rightarrow> (nat \<times> vec) option" where "body = (\<lambda>(offset, tmp). do {
              tmp' \<leftarrow> lockstep [0..<32]
                 (\<lambda>idx_t old cur.
                     let lane = idx_t mod 32
                     in if wrap32 (lane + offset) < 32
                        then do {
                          a \<leftarrow> rd old lane;
                          b \<leftarrow> rd old (wrap32 (lane + offset));
                          wr cur lane (a + b) }
                        else Some cur) tmp;
              Some (wrap32 (offset * 2), tmp') })"
  have step: "body (off, t) = Some (off * 2, shifted 32 off t)"
    if "length t = 32" "off < 2147483648" for off and t :: vec
    unfolding body_def split_conv using that by (intro blocked_reduce_step) simp_all
  have "while_loop (\<lambda>(offset, tmp). offset \<le> 32) body (3, tmp)
        = Some (48, shifted 32 24 (shifted 32 12 (shifted 32 6 (shifted 32 3 tmp))))"
    apply (subst while_loop.simps, simp add: step l)
    apply (subst while_loop.simps, simp add: step)
    apply (subst while_loop.simps, simp add: step)
    apply (subst while_loop.simps, simp add: step)
    apply (subst while_loop.simps, simp)
    done
  then show ?thesis
    unfolding blocked_reduce_def Let_def body_def by simp
qed

lemma reduced_lanes:
  fixes tmp :: vec
  assumes "l < 3"
  shows "shifted 64 48 (shifted 64 24 (shifted 64 12 (shifted 64 6 (shifted 64 3 tmp)))) ! l
         = (\<Sum>j<21. tmp ! (j * 3 + l)) + (if l = 0 then tmp ! 63 else 0)"
proof -
  have e: "(\<Sum>j<21. f j) = f 0 + f 1 + f 2 + f 3 + f 4 + f 5 + f 6 + f 7 + f 8 + f 9 + f 10
      + f 11 + f 12 + f 13 + f 14 + f 15 + f 16 + f 17 + f 18 + f 19 + f 20" for f :: "nat \<Rightarrow> real"
    by (simp add: eval_nat_numeral lessThan_Suc)
  consider "l = 0" | "l = 1" | "l = 2" using assms by linarith
  then show ?thesis
  proof cases
    case 1
    show ?thesis unfolding 1 e by (simp add: shifted_nth)
  next
    case 2
    show ?thesis unfolding 2 e by (simp add: shifted_nth)
  next
    case 3
    show ?thesis unfolding 3 e by (simp add: shifted_nth numeral_2_eq_2)
  qed
qed

lemma reduced_lanes_32:
  fixes tmp :: vec
  assumes "l < 3"
  shows "shifted 32 24 (shifted 32 12 (shifted 32 6 (shifted 32 3 tmp))) ! l
         = (\<Sum>j<9. tmp ! (j * 3 + l)) + tmp ! (27 + l) + (if l < 2 then tmp ! (30 + l) else 0)"
proof -
  have e: "(\<Sum>j<9. f j) = f 0 + f 1 + f 2 + f 3 + f 4 + f 5 + f 6 + f 7 + f 8" for f :: "nat \<Rightarrow> real"
    by (simp add: eval_nat_numeral lessThan_Suc)
  consider "l = 0" | "l = 1" | "l = 2" using assms by linarith
  then show ?thesis
  proof cases
    case 1
    show ?thesis unfolding 1 e by (simp add: shifted_nth)
  next
    case 2
    show ?thesis unfolding 2 e by (simp add: shifted_nth)
  next
    case 3
    show ?thesis unfolding 3 e by (simp add: shifted_nth numeral_2_eq_2)
  qed
qed

lemma blocked_reduce_lanes:
  fixes tmp :: vec
  assumes W: "W = 32 \<or> W = 64" and len: "length tmp = W"
    and idle: "\<forall>t<W. W div 9 * 9 \<le> t \<longrightarrow> tmp ! t = 0"
  shows "\<exists>T. blocked_reduce W [0..<W] tmp = Some T \<and> length T = W
           \<and> (\<forall>l<3. T ! l = (\<Sum>j<W div 9 * 3. tmp ! (j * 3 + l)))"
  using W
proof
  assume w: "W = 32"
  have z: "tmp ! (27 + l) = 0" "tmp ! (30 + l) = 0" if "l < 2" for l
    using idle that by (simp_all add: w)
  have z2: "tmp ! 29 = 0" using idle by (simp add: w)
  have "\<forall>l<3. shifted 32 24 (shifted 32 12 (shifted 32 6 (shifted 32 3 tmp))) ! l
          = (\<Sum>j<9. tmp ! (j * 3 + l))"
  proof (intro allI impI)
    fix l :: nat assume l: "l < 3"
    show "shifted 32 24 (shifted 32 12 (shifted 32 6 (shifted 32 3 tmp))) ! l = (\<Sum>j<9. tmp ! (j * 3 + l))"
    proof (cases "l < 2")
      case True
      then show ?thesis unfolding reduced_lanes_32[OF l] using z[OF True] by simp
    next
      case False
      then have "l = 2" using l by simp
      then show ?thesis unfolding reduced_lanes_32[OF l] using z2 by simp
    qed
  qed
  then show ?thesis using blocked_reduce_32[of tmp] len by (simp add: w)
next
  assume w: "W = 64"
  have z: "tmp ! 63 = 0" using idle by (simp add: w)
  have "\<forall>l<3. shifted 64 48 (shifted 64 24 (shifted 64 12 (shifted 64 6 (shifted 64 3 tmp)))) ! l
          = (\<Sum>j<21. tmp ! (j * 3 + l))"
    using reduced_lanes[of _ tmp] z by simp
  then show ?thesis using blocked_reduce_64[of tmp] len by (simp add: w)
qed

lemma sum_div_mod_3:
  fixes g :: "nat \<Rightarrow> nat \<Rightarrow> real"
  shows "(\<Sum>j<K * 3. g (j div 3) (j mod 3)) = (\<Sum>slot<K. \<Sum>c<3. g slot c)"
proof -
  have "(\<Sum>j<K * 3. g (j div 3) (j mod 3)) = (\<Sum>m<K. \<Sum>j = m * 3..<m * 3 + 3. g (j div 3) (j mod 3))"
    by (rule sum.nat_group[symmetric])
  also have "\<dots> = (\<Sum>m<K. \<Sum>c<3. g m c)"
  proof (rule sum.cong[OF refl])
    fix m :: nat
    have "(\<Sum>j = 0 + m * 3..<3 + m * 3. g (j div 3) (j mod 3))
          = (\<Sum>c = 0..<3. g ((c + m * 3) div 3) ((c + m * 3) mod 3))"
      by (rule sum.shift_bounds_nat_ivl)
    also have "\<dots> = (\<Sum>c = 0..<3. g m c)"
      by (intro sum.cong refl) simp
    finally show "(\<Sum>j = m * 3..<m * 3 + 3. g (j div 3) (j mod 3)) = (\<Sum>c<3. g m c)"
      by (simp add: atLeast0LessThan add.commute)
  qed
  finally show ?thesis .
qed

lemma lanes_sum:
  fixes vals x :: vec and cols rows :: "int list" and row :: nat
  assumes l: "l < 3" and W: "W = 32 \<or> W = 64"
  defines "LO \<equiv> \<lambda>t. if t < W div 9 * 9
               then \<Sum>block\<in>strided (nat (rows ! row)) (nat (rows ! (row + 1))) (W div 9) (t div 9).
                      block_term vals cols x ((t div 3) mod 3) (t mod 3) block
               else 0"
  shows "(\<Sum>j<W div 9 * 3. map LO [0..<W] ! (j * 3 + l)) = block_row_product vals cols rows x row l"
proof -
  define K where "K = W div 9"
  note wc = width_cases[OF W, folded K_def]
  define lo hi where "lo = nat (rows ! row)" and "hi = nat (rows ! (row + 1))"
  define G where "G slot c = (\<Sum>block\<in>strided lo hi K slot. block_term vals cols x c l block)"
    for slot c
  have "(\<Sum>j<K * 3. map LO [0..<W] ! (j * 3 + l)) = (\<Sum>j<K * 3. G (j div 3) (j mod 3))"
  proof (intro sum.cong refl)
    fix j assume "j \<in> {..<K * 3}"
    then have j: "j < K * 3" by simp
    then have t: "j * 3 + l < K * 9" using l by linarith
    then have tW: "j * 3 + l < W" using wc(4) by linarith
    have d: "(j * 3 + l) div 3 = j" "(j * 3 + l) mod 3 = l" using l by simp_all
    have "(j * 3 + l) div 9 = (j * 3 + l) div 3 div 3" by (simp add: div_mult2_eq)
    then have d9: "(j * 3 + l) div 9 = j div 3" using d by simp
    have "map LO [0..<W] ! (j * 3 + l) = LO (j * 3 + l)" using tW by (simp del: upt_Suc)
    also have "\<dots> = G (j div 3) (j mod 3)"
      using t l by (simp add: LO_def G_def d d9 lo_def hi_def K_def)
    finally show "map LO [0..<W] ! (j * 3 + l) = G (j div 3) (j mod 3)" .
  qed
  also have "\<dots> = (\<Sum>slot<K. \<Sum>c<3. G slot c)" by (rule sum_div_mod_3)
  also have "\<dots> = (\<Sum>c<3. \<Sum>slot<K. G slot c)" by (rule sum.swap)
  also have "\<dots> = (\<Sum>c<3. \<Sum>block = lo..<hi. block_term vals cols x c l block)"
    unfolding G_def using wc(2) by (intro sum.cong refl sum_strided) simp
  finally show ?thesis by (simp add: block_row_product_def lo_def hi_def K_def)
qed

lemma length_rows_written [simp]: "length (rows_written R vals cols rows x rhs out) = length out"
  by (simp add: rows_written_def)

lemma rows_written_empty [simp]: "rows_written {} vals cols rows x rhs out = out"
  by (simp add: rows_written_def map_nth)

lemma rows_written_twice:
  "rows_written R vals cols rows x rhs (rows_written R' vals cols rows x rhs out)
   = rows_written (R \<union> R') vals cols rows x rhs out"
  by (intro nth_equalityI) (simp_all add: rows_written_def)

lemma write_block_row:
  fixes out :: vec
  assumes tl: "length tmp = W" and W: "3 \<le> W"
    and tv: "\<forall>l<3. tmp ! l = block_row_product vals cols rows x row l"
    and len: "row * 3 + 3 \<le> length out" "row * 3 + 3 \<le> length rhs" "row * 3 + 3 \<le> 4294967296"
  shows "run_threads
           (\<lambda>idx_t out.
               let lane = idx_t mod W
               in if lane < 3
                  then do {
                    let row = wrap32 (wrap32 (replicate W row ! idx_t * 3) + lane);
                    b \<leftarrow> rd rhs row;
                    v \<leftarrow> rd tmp lane;
                    wr out row (b - v) }
                  else Some out) [0..<W] out
         = Some (rows_written {row} vals cols rows x rhs out)"
proof -
  let ?f = "\<lambda>idx_t out.
               let lane = idx_t mod W
               in if lane < 3
                  then do {
                    let row = wrap32 (wrap32 (replicate W row ! idx_t * 3) + lane);
                    b \<leftarrow> rd rhs row;
                    v \<leftarrow> rd tmp lane;
                    wr out row (b - v) }
                  else Some out"
  let ?L = "length out"
  have m3: "min W 3 = 3" using W by simp
  have "\<exists>s'. run_threads ?f [0..<W] out = Some s' \<and> length s' = ?L \<and>
           (\<forall>g<min W 3. row * 3 + g < ?L \<longrightarrow>
               s' ! (row * 3 + g) = rhs ! (row * 3 + g) - tmp ! g) \<and>
           (\<forall>i<?L. i \<notin> (\<lambda>g. row * 3 + g) ` {..<min W 3} \<longrightarrow> s' ! i = out ! i)"
  proof (rule run_threads_scatter[where ix="\<lambda>g. row * 3 + g" and h="\<lambda>g v. rhs ! (row * 3 + g) - tmp ! g"
        and N=3 and L="?L" and n=W and ?s0.0=out and f="?f"])
    fix g :: nat and s :: vec assume g: "g < W" and ls: "length s = ?L"
    show "?f g s = Some (if g < 3 then s[row * 3 + g := rhs ! (row * 3 + g) - tmp ! g] else s)"
    proof (cases "g < 3")
      case True
      have "row * 3 < 4294967296" "row * 3 + g < 4294967296" using True len by linarith+
      then have w: "wrap32 (wrap32 (row * 3) + g) = row * 3 + g" by (simp add: wrap32_id)
      have i: "row * 3 + g < length rhs" "row * 3 + g < length s" "g < length tmp"
        using True len ls tl W by linarith+
      show ?thesis using True g i by (simp add: Let_def w rd_def wr_def)
    next
      case False
      then show ?thesis using g by (simp add: Let_def)
    qed
  qed (simp_all add: inj_on_def)
  then obtain s' where s': "run_threads ?f [0..<W] out = Some s'" "length s' = ?L"
    "\<forall>g<3. row * 3 + g < ?L \<longrightarrow> s' ! (row * 3 + g) = rhs ! (row * 3 + g) - tmp ! g"
    "\<forall>i<?L. i \<notin> (\<lambda>g. row * 3 + g) ` {..<3} \<longrightarrow> s' ! i = out ! i"
    unfolding m3 by auto
  have "s' = rows_written {row} vals cols rows x rhs out"
  proof (intro nth_equalityI)
    fix j assume "j < length s'"
    then have j: "j < ?L" using s' by simp
    show "s' ! j = rows_written {row} vals cols rows x rhs out ! j"
    proof (cases "j div 3 = row")
      case True
      then have e: "row * 3 + j mod 3 = j" by auto
      have m: "j mod 3 < 3" by simp
      with s'(3) have "row * 3 + j mod 3 < ?L \<longrightarrow>
           s' ! (row * 3 + j mod 3) = rhs ! (row * 3 + j mod 3) - tmp ! (j mod 3)" by blast
      then have "s' ! j = rhs ! j - tmp ! (j mod 3)" using j by (simp add: e)
      then show ?thesis using True j tv m by (simp add: rows_written_def)
    next
      case False
      have "j \<notin> (\<lambda>g. row * 3 + g) ` {..<3}"
      proof
        assume "j \<in> (\<lambda>g. row * 3 + g) ` {..<3}"
        then obtain g where "g < 3" "j = row * 3 + g" by auto
        then have "j div 3 = row" by simp
        then show False using False by simp
      qed
      with s'(4) j have "s' ! j = out ! j" by blast
      then show ?thesis using False j by (simp add: rows_written_def)
    qed
  qed (simp add: s')
  then show ?thesis using s' by simp
qed

lemma run_threads_fill_lane:
  fixes ls :: vec
  assumes "length ls = W" "length tmp = W"
  shows "run_threads (\<lambda>idx_t tmp. wr tmp (idx_t mod W) (ls ! idx_t)) [0..<W] tmp = Some ls"
proof -
  have "run_threads (\<lambda>idx_t tmp. wr tmp (idx_t mod W) (ls ! idx_t)) [0..<W] tmp
        = run_threads (\<lambda>idx_t tmp. wr tmp idx_t (ls ! idx_t)) [0..<W] tmp"
    by (rule run_threads_cong) simp
  then show ?thesis using run_threads_fill[OF assms] by simp
qed

lemma residual_blocked_k_step_row:
  fixes out :: vec
  assumes W: "W = 32 \<or> W = 64"
    and row: "row < nat Nb" "0 \<le> Nb" "Nb \<le> 67108864" "nat Nb < length rows"
    and G: "G \<le> 67108864"
    and rows: "\<forall>row<nat Nb. 0 \<le> rows ! row \<and> rows ! row \<le> rows ! (row + 1)
                 \<and> nat (rows ! (row + 1)) \<le> length cols"
    and len: "length cols * 9 \<le> length vals" "length vals < 4294967296"
    and cols: "\<forall>j<length cols. 0 \<le> cols ! j \<and> nat (cols ! j) * 3 + 3 \<le> length x"
    and lx: "length x < 4294967296"
    and out: "3 * nat Nb \<le> length out" "3 * nat Nb \<le> length rhs"
    and tmp: "length tmp = W"
  shows "\<exists>tmp'. residual_blocked_k_step W G W vals cols rows Nb x rhs 3 (replicate W row, tmp, out)
           = Some (replicate W (row + G div W), tmp', rows_written {row} vals cols rows x rhs out)
         \<and> length tmp' = W"
proof -
  note wc = width_cases[OF W]
  define LO where "LO = (\<lambda>t. if t < W div 9 * 9
               then \<Sum>block\<in>strided (nat (rows ! row)) (nat (rows ! (row + 1))) (W div 9) (t div 9).
                      block_term vals cols x ((t div 3) mod 3) (t mod 3) block
               else 0)"
  have u: "u32 Nb = nat Nb" using row by (simp add: u32_id)
  have r1: "row + 1 < length rows" "row + 1 < 4294967296" using row by linarith+
  have rr: "0 \<le> rows ! row" "rows ! row \<le> rows ! (row + 1)" "nat (rows ! (row + 1)) \<le> length cols"
    using rows row by simp_all
  have one: "blocked_local_out W 3 vals cols rows x (replicate W row ! t) t = Some (LO t)"
    if "t \<in> set [0..<W]" for t
  proof -
    have t: "t < W" using that by simp
    show ?thesis
    proof (cases "t < W div 9 * 9")
      case True
      then show ?thesis
        using t blocked_local_out_active[OF W True r1 rr len cols lx] by (simp add: LO_def)
    next
      case False
      then have "W div 9 * 9 \<le> t" by simp
      then show ?thesis using blocked_local_out_idle[OF W _ t r1] t False by (simp add: LO_def)
    qed
  qed
  have th: "those (map (\<lambda>idx_t. blocked_local_out W 3 vals cols rows x (replicate W row ! idx_t) idx_t)
                  [0..<W]) = Some (map LO [0..<W])"
    using one by (rule those_map_Some)
  have fill: "run_threads (\<lambda>idx_t tmp. wr tmp (idx_t mod W) (map LO [0..<W] ! idx_t)) [0..<W] tmp
              = Some (map LO [0..<W])"
    using tmp by (intro run_threads_fill_lane) simp_all
  have "\<forall>t<W. W div 9 * 9 \<le> t \<longrightarrow> map LO [0..<W] ! t = 0"
    by (simp add: LO_def del: upt_Suc)
  from blocked_reduce_lanes[OF W _ this]
  obtain T where red: "blocked_reduce W [0..<W] (map LO [0..<W]) = Some T" and Tl: "length T = W"
    and T: "\<forall>l<3. T ! l = (\<Sum>j<W div 9 * 3. map LO [0..<W] ! (j * 3 + l))" by auto
  have Tv: "\<forall>l<3. T ! l = block_row_product vals cols rows x row l"
    using T lanes_sum[OF _ W] unfolding LO_def by simp
  have wr: "run_threads
           (\<lambda>idx_t out.
               let lane = idx_t mod W
               in if lane < 3
                  then do {
                    let row = wrap32 (wrap32 (replicate W row ! idx_t * 3) + lane);
                    b \<leftarrow> rd rhs row;
                    v \<leftarrow> rd T lane;
                    wr out row (b - v) }
                  else Some out) [0..<W] out
         = Some (rows_written {row} vals cols rows x rhs out)"
    using Tl Tv row out wc(7) by (intro write_block_row) simp_all
  have "row + G div W < 4294967296"
  proof -
    have "G div W \<le> G" by simp
    then show ?thesis using row G by linarith
  qed
  then have nr: "map (\<lambda>row. wrap32 (row + G div W)) (replicate W row) = replicate W (row + G div W)"
    by (simp add: wrap32_id)
  have la: "list_all (\<lambda>r. r < nat Nb) (replicate W row)" using row by (simp add: list_all_replicate)
  have "residual_blocked_k_step W G W vals cols rows Nb x rhs 3 (replicate W row, tmp, out)
        = Some (replicate W (row + G div W), T, rows_written {row} vals cols rows x rhs out)"
    unfolding residual_blocked_k_step_def split_conv Let_def u
    by (simp only: la not_True_eq_False if_False th bind.bind_lunit fill red wr[unfolded Let_def] nr)
  then show ?thesis using Tl by blast
qed

lemma blocked_rows_uniform:
  assumes "b < 67108864" "0 < W" "W \<le> 64"
  shows "map (\<lambda>idx_t. wrap32 (wrap32 (global_id W b idx_t div W * W) + idx_t) div W) [0..<W]
         = replicate W b"
proof (intro nth_equalityI)
  fix t assume "t < length (map (\<lambda>idx_t. wrap32 (wrap32 (global_id W b idx_t div W * W) + idx_t) div W)
                              [0..<W])"
  then have t: "t < W" by simp
  have "W * b \<le> 64 * b" using assms by simp
  then have "W * b + t < 4294967296" "W * b < 4294967296" using assms t by linarith+
  then have lt: "W * b + t < 4294967296" "b * W < 4294967296" by (simp_all add: mult.commute)
  have "global_id W b t = W * b + t" using lt by (intro global_id_eq)
  moreover have d: "(W * b + t) div W = b" using t by simp
  ultimately have "wrap32 (wrap32 (global_id W b t div W * W) + t) = W * b + t"
    using lt by (simp add: wrap32_id mult.commute)
  then show "map (\<lambda>idx_t. wrap32 (wrap32 (global_id W b idx_t div W * W) + idx_t) div W) [0..<W] ! t
             = replicate W b ! t"
    using t d by (simp del: upt_Suc)
qed simp

lemma residual_blocked_k_group_rows:
  fixes out :: vec
  assumes W: "W = 32 \<or> W = 64"
    and b: "b < G" "G \<le> 67108864" "0 < G div W"
    and Nb: "0 \<le> Nb" "Nb \<le> 67108864" "nat Nb < length rows"
    and rows: "\<forall>row<nat Nb. 0 \<le> rows ! row \<and> rows ! row \<le> rows ! (row + 1)
                 \<and> nat (rows ! (row + 1)) \<le> length cols"
    and len: "length cols * 9 \<le> length vals" "length vals < 4294967296"
    and cols: "\<forall>j<length cols. 0 \<le> cols ! j \<and> nat (cols ! j) * 3 + 3 \<le> length x"
    and lx: "length x < 4294967296"
    and out: "3 * nat Nb \<le> length out" "3 * nat Nb \<le> length rhs"
  shows "\<exists>R. residual_blocked_k_group W G W W b vals cols rows Nb x rhs 3 out
               = Some (rows_written R vals cols rows x rhs out)
             \<and> R \<subseteq> {..<nat Nb} \<and> (b < nat Nb \<longrightarrow> b \<in> R)"
proof -
  note wc = width_cases[OF W]
  define n where "n = nat Nb"
  define stride where "stride = G div W"
  define I :: "nat list \<times> vec \<times> vec \<Rightarrow> bool" where
    "I = (\<lambda>(tbr, tmp, ov). \<exists>row R. tbr = replicate W row \<and> length tmp = W
            \<and> ov = rows_written R vals cols rows x rhs out \<and> R \<subseteq> {..<n}
            \<and> b \<le> row \<and> (b < row \<longrightarrow> b \<in> R) \<and> row < max n (Suc b) + stride)"
  have u: "u32 Nb = n" using Nb by (simp add: u32_id n_def)
  have b': "b < 67108864" using b by simp
  have init: "I (replicate W b, replicate W 0, out)"
    unfolding I_def split_conv
    by (intro exI[of _ b] exI[of _ "{}"]) (use b in simp)
  have step: "\<exists>s'. residual_blocked_k_step W G W vals cols rows Nb x rhs 3 s = Some s' \<and> I s'
                \<and> (s', s) \<in> measure (\<lambda>(tbr, tmp, ov). max n (Suc b) + stride - hd tbr)"
    if "I s" "(\<lambda>(target_block_row, tmp, out). list_ex (\<lambda>row. row < u32 Nb) target_block_row) s" for s
  proof -
    obtain tbr tmp ov where s: "s = (tbr, tmp, ov)" by (cases s)
    from that(1) s obtain row R where I: "tbr = replicate W row" "length tmp = W"
      "ov = rows_written R vals cols rows x rhs out" "R \<subseteq> {..<n}" "b \<le> row" "b < row \<longrightarrow> b \<in> R"
      "row < max n (Suc b) + stride"
      by (auto simp: I_def)
    have rn: "row < n" using that(2) s I(1) wc(6) by (simp add: u list_ex_replicate)
    have lo: "3 * nat Nb \<le> length ov" using out I(3) by simp
    from residual_blocked_k_step_row[OF W rn[unfolded n_def] Nb b(2) rows len cols lx lo out(2) I(2)]
    obtain tmp' where st: "residual_blocked_k_step W G W vals cols rows Nb x rhs 3 (replicate W row, tmp, ov)
           = Some (replicate W (row + stride), tmp', rows_written {row} vals cols rows x rhs ov)"
      and tl: "length tmp' = W" unfolding stride_def by blast
    have o': "rows_written {row} vals cols rows x rhs ov = rows_written (insert row R) vals cols rows x rhs out"
      unfolding I(3) rows_written_twice by simp
    have pos: "0 < stride" using b by (simp add: stride_def)
    have "I (replicate W (row + stride), tmp', rows_written {row} vals cols rows x rhs ov)"
      unfolding I_def split_conv o'
      by (intro exI[of _ "row + stride"] exI[of _ "insert row R"]) (use I rn tl pos in auto)
    moreover have "((replicate W (row + stride), tmp', rows_written {row} vals cols rows x rhs ov), s)
          \<in> measure (\<lambda>(tbr, tmp, ov). max n (Suc b) + stride - hd tbr)"
    proof -
      have "hd (replicate W row) = row" "hd (replicate W (row + stride)) = row + stride"
        using wc(6) by (cases W; simp)+
      then show ?thesis using I(7) pos by (simp add: s I(1))
    qed
    ultimately show ?thesis using st by (simp add: s I(1))
  qed
  from while_loop_rule[where I=I
      and c="\<lambda>(target_block_row, tmp, out). list_ex (\<lambda>row. row < u32 Nb) target_block_row"
      and f="residual_blocked_k_step W G W vals cols rows Nb x rhs 3", OF wf_measure init step]
  obtain s' where s': "while_loop (\<lambda>(target_block_row, tmp, out). list_ex (\<lambda>row. row < u32 Nb) target_block_row)
       (residual_blocked_k_step W G W vals cols rows Nb x rhs 3) (replicate W b, replicate W 0, out)
       = Some s'" "I s'"
    "\<not> (\<lambda>(target_block_row, tmp, out). list_ex (\<lambda>row. row < u32 Nb) target_block_row) s'" by blast
  obtain tbr tmp ov where t: "s' = (tbr, tmp, ov)" by (cases s')
  from s'(2) t obtain row R where I: "tbr = replicate W row"
      "ov = rows_written R vals cols rows x rhs out" "R \<subseteq> {..<n}" "b \<le> row" "b < row \<longrightarrow> b \<in> R"
    by (auto simp: I_def)
  have "\<not> row < n" using s'(3) t I(1) wc(6) by (simp add: u list_ex_replicate)
  then have bR: "b < n \<longrightarrow> b \<in> R" using I by auto
  have w: "wrap32 (3 * 3) \<noteq> 0" by (simp add: wrap32_def)
  have "residual_blocked_k_group W G W W b vals cols rows Nb x rhs 3 out = Some ov"
    unfolding residual_blocked_k_group_def Let_def blocked_rows_uniform[OF b' wc(6) wc(5)] s' t
    using w wc(6) by simp
  then show ?thesis using I bR unfolding n_def by blast
qed

lemma residual_blocked_k_result:
  fixes out :: vec
  assumes W: "W = 32 \<or> W = 64"
    and G: "G \<le> 67108864" "W \<le> G" "nat Nb \<le> G"
    and Nb: "0 \<le> Nb" "Nb \<le> 67108864" "nat Nb < length rows"
    and rows: "\<forall>row<nat Nb. 0 \<le> rows ! row \<and> rows ! row \<le> rows ! (row + 1)
                 \<and> nat (rows ! (row + 1)) \<le> length cols"
    and len: "length cols * 9 \<le> length vals" "length vals < 4294967296"
    and cols: "\<forall>j<length cols. 0 \<le> cols ! j \<and> nat (cols ! j) * 3 + 3 \<le> length x"
    and lx: "length x < 4294967296"
    and out: "3 * nat Nb \<le> length out" "3 * nat Nb \<le> length rhs"
  shows "residual_blocked_k W G W W vals cols rows Nb x rhs out 3
         = Some (rows_written {..<nat Nb} vals cols rows x rhs out)"
proof -
  let ?grp = "\<lambda>b. residual_blocked_k_group W G W W b vals cols rows Nb x rhs 3"
  have pos: "0 < G div W" using G(2) width_cases(6)[OF W] by (simp add: div_greater_zero_iff)
  have "n \<le> G \<Longrightarrow> \<exists>R. run_threads ?grp [0..<n] out = Some (rows_written R vals cols rows x rhs out)
          \<and> R \<subseteq> {..<nat Nb} \<and> {..<min n (nat Nb)} \<subseteq> R" for n
  proof (induction n)
    case 0
    show ?case by (intro exI[of _ "{}"]) simp
  next
    case (Suc n)
    then obtain R where R: "run_threads ?grp [0..<n] out = Some (rows_written R vals cols rows x rhs out)"
      "R \<subseteq> {..<nat Nb}" "{..<min n (nat Nb)} \<subseteq> R" by auto
    have nG: "n < G" using Suc.prems by simp
    note grp = residual_blocked_k_group_rows[OF W nG G(1) pos Nb rows len cols lx _ out(2),
        of "rows_written R vals cols rows x rhs out"]
    have "3 * nat Nb \<le> length (rows_written R vals cols rows x rhs out)" using out by simp
    from grp[OF this] obtain R' where R':
      "?grp n (rows_written R vals cols rows x rhs out)
         = Some (rows_written R' vals cols rows x rhs (rows_written R vals cols rows x rhs out))"
      "R' \<subseteq> {..<nat Nb}" "n < nat Nb \<longrightarrow> n \<in> R'" by blast
    have run: "run_threads ?grp [0..<Suc n] out = Some (rows_written (R' \<union> R) vals cols rows x rhs out)"
      using R(1) R'(1) by (simp add: run_threads_append rows_written_twice)
    have "{..<min (Suc n) (nat Nb)} \<subseteq> R' \<union> R"
    proof
      fix i assume "i \<in> {..<min (Suc n) (nat Nb)}"
      then have i: "i < Suc n" "i < nat Nb" by simp_all
      show "i \<in> R' \<union> R"
      proof (cases "i = n")
        case True
        then show ?thesis using R'(3) i by simp
      next
        case False
        then have "i \<in> {..<min n (nat Nb)}" using i by simp
        then show ?thesis using R(3) by blast
      qed
    qed
    then show ?case using run R(2) R'(2) by (intro exI[of _ "R' \<union> R"]) simp
  qed
  from this[of G] obtain R where R: "run_threads ?grp [0..<G] out = Some (rows_written R vals cols rows x rhs out)"
      "R \<subseteq> {..<nat Nb}" "{..<min G (nat Nb)} \<subseteq> R" by auto
  have "min G (nat Nb) = nat Nb" using G by simp
  then have "R = {..<nat Nb}" using R by auto
  then show ?thesis using R(1) by (simp add: residual_blocked_k_def)
qed

lemma ref_spmv_3_nth:
  assumes "i < Nb * 3"
  shows "ref_spmv Nb 3 vals cols rows x ! i = block_row_product vals cols rows x (i div 3) (i mod 3)"
proof -
  let ?lo = "nat (rows ! (i div 3))" and ?hi = "nat (rows ! (i div 3 + 1))"
  have "ref_spmv Nb 3 vals cols rows x ! i =
          (\<Sum>block = ?lo..<?hi. \<Sum>c<3. vals ! (block * 3 * 3 + i mod 3 * 3 + c)
                                   * x ! (nat (cols ! block) * 3 + c))"
    using assms
    by (simp add: ref_spmv_def Let_def interv_sum_list_conv_sum_set_nat atLeast0LessThan del: upt_Suc)
  also have "\<dots> = (\<Sum>block = ?lo..<?hi. \<Sum>c<3. block_term vals cols x c (i mod 3) block)"
    by (intro sum.cong refl) (simp add: block_term_def mult.commute add.commute add.left_commute add.assoc)
  also have "\<dots> = (\<Sum>c<3. \<Sum>block = ?lo..<?hi. block_term vals cols x c (i mod 3) block)"
    by (rule sum.swap)
  finally show ?thesis by (simp add: block_row_product_def)
qed

lemma rows_written_all:
  assumes "length rhs = 3 * Nb" "length out = 3 * Nb"
  shows "rows_written {..<Nb} vals cols rows x rhs out = map2 (-) rhs (ref_spmv Nb 3 vals cols rows x)"
proof (intro nth_equalityI)
  show "length (rows_written {..<Nb} vals cols rows x rhs out)
        = length (map2 (-) rhs (ref_spmv Nb 3 vals cols rows x))"
    using assms by (simp add: ref_spmv_def)
next
  fix i assume "i < length (rows_written {..<Nb} vals cols rows x rhs out)"
  then have i: "i < 3 * Nb" using assms by simp
  then have i': "i < Nb * 3" "i div 3 < Nb" by simp_all
  have "length (ref_spmv Nb 3 vals cols rows x) = Nb * 3" by (simp add: ref_spmv_def)
  then show "rows_written {..<Nb} vals cols rows x rhs out ! i
             = map2 (-) rhs (ref_spmv Nb 3 vals cols rows x) ! i"
    using i i' assms ref_spmv_3_nth[OF i'(1), of vals cols rows x]
    by (simp add: rows_written_def del: upt_Suc)
qed

lemma residual_blocked_k_product:
  assumes W: "W = 32 \<or> W = 64"
    and G: "G \<le> 67108864" "W \<le> G" "Nb \<le> G"
    and m: "bsr_matrix Nb 3 vals cols rows"
    and b: "Nb \<le> 67108864" "length vals < 4294967296"
    and l: "length x = 3 * Nb" "length rhs = 3 * Nb" "length out = 3 * Nb"
  shows "residual_blocked_k W G W W vals cols rows (int Nb) x rhs out 3
         = Some (map2 (-) rhs (ref_spmv Nb 3 vals cols rows x))"
proof -
  have r: "\<forall>row<nat (int Nb). 0 \<le> rows ! row \<and> rows ! row \<le> rows ! (row + 1)
                 \<and> nat (rows ! (row + 1)) \<le> length cols"
    using bsr_matrix_rows[OF m] by simp
  have c: "\<forall>j<length cols. 0 \<le> cols ! j \<and> nat (cols ! j) * 3 + 3 \<le> length x"
  proof (intro allI impI)
    fix j assume "j < length cols"
    from bsr_matrix_cols[OF m this] show "0 \<le> cols ! j \<and> nat (cols ! j) * 3 + 3 \<le> length x"
      using l by simp
  qed
  have lv: "length cols * 9 \<le> length vals" "nat (int Nb) < length rows"
    using m by (simp_all add: bsr_matrix_def)
  have lx: "length x < 4294967296" using l b by simp
  have "residual_blocked_k W G W W vals cols rows (int Nb) x rhs out 3
         = Some (rows_written {..<nat (int Nb)} vals cols rows x rhs out)"
    using W G b lv r c lx l by (intro residual_blocked_k_result) simp_all
  then show ?thesis using rows_written_all[OF l(2,3)] by simp
qed

lemma residual_blocked_result:
  assumes m: "bsr_matrix Nb 3 vals cols rows"
    and b: "Nb \<le> 67108864" "length vals < 4294967296"
    and l: "length x = 3 * Nb" "length rhs = 3 * Nb" "length out = 3 * Nb"
  shows "residual True 64 vals cols rows x rhs out (int Nb) 3 =
         Completed (map2 (-) rhs (ref_spmv Nb 3 vals cols rows x))"
proof -
  let ?G = "wrap32 (ceilDivision (u32 (int Nb)) 64 * 64)"
  have h: "u32 (int Nb) = nat (int Nb)" "nat (int Nb) \<le> ?G" "?G \<le> 64 * 1048576"
    using host_grid[of "int Nb" 1048576] b by simp_all
  have G: "?G \<le> 67108864" "Nb \<le> ?G" using h by simp_all
  show ?thesis
  proof (cases "Nb = 0")
    case True
    then have "?G = 0" by (simp add: u32_def ceilDivision_def wrap32_def)
    then have "residual_blocked_k 64 ?G 64 64 vals cols rows (int Nb) x rhs out 3 = Some out"
      by (simp add: residual_blocked_k_def)
    moreover have "out = map2 (-) rhs (ref_spmv Nb 3 vals cols rows x)"
      using True l by simp
    ultimately show ?thesis by (simp add: residual_def Let_def wrap32_def)
  next
    case False
    have "ceilDivision (u32 (int Nb)) 64 * 64 \<le> 1048576 * 64"
      using b h(1) by (intro ceilDivision_le) simp_all
    then have e: "?G = ceilDivision (u32 (int Nb)) 64 * 64" by (simp add: wrap32_id)
    have "0 < ?G" using False G(2) by simp
    then have "0 < ceilDivision (u32 (int Nb)) 64" unfolding e by simp
    then have "64 \<le> ?G" unfolding e by simp
    from residual_blocked_k_product[OF _ G(1) this G(2) m b l]
    show ?thesis by (simp add: residual_def Let_def wrap32_def)
  qed
qed

subsection \<open>residual_blocked_k on a block of size 2\<close>









subsection \<open>residual_blocked_k in groups of two wavefronts\<close>

text \<open>
  \<open>residual\<close> launches groups of 64 threads. At the width 32 such a group holds two
  wavefronts, which take different block rows and share the entries \<open>tmp[lane]\<close>; when only
  one of them has a block row left, as for a matrix of one block row, the threads of the
  group do not all reach the barrier of the reduction.
\<close>

lemma two_wavefronts_diverge:
  "residual True 32 [1, 0, 0, 0, 1, 0, 0, 0, 1] [0] [0, 1] [1, 2, 3] [10, 10, 10] [0, 0, 0] 1 3
   = Undefined"
proof -
  define tbr where "tbr = map (\<lambda>idx_t. wrap32 (wrap32 (global_id 64 0 idx_t div 64 * 64) + idx_t) div 32)
                            [0..<64]"
  have n: "tbr ! t = t div 32" if "t < 64" for t
    using that unfolding tbr_def by (simp add: global_id_def wrap32_def del: upt_Suc)
  have l: "length tbr = 64" by (simp add: tbr_def)
  have u: "u32 1 = 1" by (simp add: u32_def)
  have ex: "list_ex (\<lambda>row. row < 1) tbr"
  proof -
    have "tbr ! 0 \<in> set tbr" using l by (intro nth_mem) simp
    then show ?thesis unfolding list_ex_iff using n[of 0] by (intro bexI[of _ "tbr ! 0"]) simp_all
  qed
  have nall: "\<not> list_all (\<lambda>row. row < 1) tbr"
  proof
    assume "list_all (\<lambda>row. row < 1) tbr"
    then have "tbr ! 32 < 1" unfolding list_all_iff using l by simp
    then show False using n[of 32] by simp
  qed
  have st: "residual_blocked_k_step 32 64 64 [1, 0, 0, 0, 1, 0, 0, 0, 1] [0] [0, 1] 1 [1, 2, 3] [10, 10, 10] 3
              (tbr, replicate 64 0, [0, 0, 0]) = None"
    unfolding residual_blocked_k_step_def split_conv Let_def u using nall by simp
  have "residual_blocked_k_group 32 64 64 64 0 [1, 0, 0, 0, 1, 0, 0, 0, 1] [0] [0, 1] 1 [1, 2, 3]
          [10, 10, 10] 3 [0, 0, 0] = None"
    unfolding residual_blocked_k_group_def Let_def tbr_def[symmetric] u
    by (subst while_loop.simps) (use ex in \<open>simp add: st wrap32_def\<close>)
  moreover have "[0..<64] = 0 # [1..<64]" by (simp add: upt_conv_Cons)
  ultimately have "residual_blocked_k 32 64 64 64 [1, 0, 0, 0, 1, 0, 0, 0, 1] [0] [0, 1] 1 [1, 2, 3]
          [10, 10, 10] [0, 0, 0] 3 = None"
    unfolding residual_blocked_k_def by simp
  moreover have "wrap32 (ceilDivision (u32 1) 64 * 64) = 64"
    by (simp add: wrap32_def ceilDivision_def u32_def)
  ultimately show ?thesis by (simp add: residual_def Let_def wrap32_def)
qed

subsection \<open>Launches in which several threads name one slot\<close>

lemma run_threads_fails:
  "t \<in> set ts \<Longrightarrow> (\<And>s. f t s = None) \<Longrightarrow> run_threads f ts s = None"
proof (induction ts arbitrary: s)
  case Nil
  then show ?case by simp
next
  case (Cons x xs)
  show ?case
  proof (cases "f x s")
    case None
    then show ?thesis by simp
  next
    case (Some s')
    then have "x \<noteq> t" using Cons.prems(2)[of s] by auto
    then have "t \<in> set xs" using Cons.prems(1) by simp
    then show ?thesis using Some Cons.IH[OF _ Cons.prems(2)] by simp
  qed
qed

text \<open>Threads that each overwrite one slot with a value that depends on the slot only.\<close>

lemma run_threads_overwrite:
  fixes s0 :: "'a list"
  assumes step: "\<And>x s. x \<in> set ts \<Longrightarrow> length s = L \<Longrightarrow>
                   f x s = Some (if ix x < N then s[ix x := v (ix x)] else s)"
    and len: "length s0 = L"
  shows "run_threads f ts s0 =
         Some (map (\<lambda>i. if i < N \<and> i \<in> ix ` set ts then v i else s0 ! i) [0..<L])"
  using step
proof (induction ts rule: rev_induct)
  case Nil
  show ?case using len map_nth[of s0] by simp
next
  case (snoc x xs)
  let ?m = "map (\<lambda>i. if i < N \<and> i \<in> ix ` set xs then v i else s0 ! i) [0..<L]"
  have run: "run_threads f xs s0 = Some ?m" using snoc by simp
  have fx: "f x ?m = Some (if ix x < N then ?m[ix x := v (ix x)] else ?m)"
    using snoc.prems[of x ?m] by simp
  have "(if ix x < N then ?m[ix x := v (ix x)] else ?m)
        = map (\<lambda>i. if i < N \<and> i \<in> ix ` set (xs @ [x]) then v i else s0 ! i) [0..<L]"
  proof (intro nth_equalityI)
    fix i assume "i < length (if ix x < N then ?m[ix x := v (ix x)] else ?m)"
    then have i: "i < L" by (simp split: if_splits)
    have m: "?m ! i = (if i < N \<and> i \<in> ix ` set xs then v i else s0 ! i)"
      using i by (simp del: upt_Suc)
    show "(if ix x < N then ?m[ix x := v (ix x)] else ?m) ! i
          = map (\<lambda>i. if i < N \<and> i \<in> ix ` set (xs @ [x]) then v i else s0 ! i) [0..<L] ! i"
    proof (cases "ix x < N")
      case True
      have "(?m[ix x := v (ix x)]) ! i = (if i = ix x then v (ix x) else ?m ! i)"
        using i by (simp add: nth_list_update del: upt_Suc)
      then show ?thesis using True i m by (auto simp del: upt_Suc)
    next
      case False
      then show ?thesis using i m by (auto simp del: upt_Suc)
    qed
  qed simp
  then show ?case using run fx by (simp add: run_threads_append del: upt_Suc)
qed

text \<open>Threads that each add to one slot: a slot receives one addition for each thread that names it.\<close>

lemma run_threads_count:
  fixes s0 :: vec
  assumes step: "\<And>x s. x \<in> set ts \<Longrightarrow> length s = L \<Longrightarrow>
                   f x s = Some (if ix x < N then s[ix x := s ! ix x + c (ix x)] else s)"
    and len: "length s0 = L" and r: "r < N" "r < L"
  shows "\<exists>s'. run_threads f ts s0 = Some s' \<and> length s' = L
           \<and> s' ! r = s0 ! r + real (length (filter (\<lambda>x. ix x = r) ts)) * c r"
  using step len
proof (induction ts arbitrary: s0)
  case Nil
  then show ?case by simp
next
  case (Cons x xs)
  let ?s1 = "if ix x < N then s0[ix x := s0 ! ix x + c (ix x)] else s0"
  have fx: "f x s0 = Some ?s1" using Cons.prems(1)[of x s0] Cons.prems(2) by simp
  have l1: "length ?s1 = L" using Cons.prems(2) by simp
  from Cons.IH[OF _ l1] Cons.prems(1) obtain s' where
    s': "run_threads f xs ?s1 = Some s'" "length s' = L"
        "s' ! r = ?s1 ! r + real (length (filter (\<lambda>x. ix x = r) xs)) * c r"
    by auto
  have "?s1 ! r = s0 ! r + (if ix x = r then c r else 0)"
    using r Cons.prems(2) by (auto simp: nth_list_update)
  then have "s' ! r = s0 ! r + real (length (filter (\<lambda>x. ix x = r) (x # xs))) * c r"
    using s'(3) by (simp add: algebra_simps)
  then show ?case using fx s' by auto
qed

subsection \<open>vmul beyond the range of the index\<close>

lemma vmul_index_overflow:
  "vmul True alpha in1 in2 out 33554433 = Undefined"
proof -
  have g: "wrap32 (ceilDivision (u32 33554433) 64 * 64) = 33554496"
    by (simp add: u32_def ceilDivision_def wrap32_def)
  have t: "(33554432, 0) \<in> set (grid 33554496 64)" by (simp add: grid_set)
  have "vmul_k_thread 33554496 64 33554432 0 alpha in1 in2 33554433 s = None" for s
    by (simp add: vmul_k_thread_def global_id_def wrap32_def s32_def rdi_def while_loop.simps)
  then have "run_threads (\<lambda>(b, t). vmul_k_thread 33554496 64 b t alpha in1 in2 33554433)
               (grid 33554496 64) out = None"
    using t by (intro run_threads_fails[where t = "(33554432, 0)"]) simp_all
  then have "vmul_k 33554496 64 alpha in1 in2 out 33554433 = None" by (simp add: vmul_k_def)
  then show ?thesis by (simp add: vmul_def g)
qed

subsection \<open>prolongate_vector with thread indices that wrap\<close>

lemma prolongate_vector_k_thread_wrapped:
  assumes N: "N \<le> P" "N + P \<le> 4294967296"
    and cols: "\<forall>i<N. 0 \<le> cols ! i \<and> nat (cols ! i) < length inp"
    and len: "N \<le> length cols" "N \<le> length out"
    and g: "g = global_id blockDim blockIdx threadIdx"
  shows "prolongate_vector_k_thread P blockDim blockIdx threadIdx inp cols N out =
         Some (if g < N then out[g := out ! g + inp ! nat (cols ! g)] else out)"
proof (cases "g < N")
  case False
  then show ?thesis
    by (simp add: prolongate_vector_k_thread_def g[symmetric] while_loop.simps)
next
  case True
  have b: "g + P < 4294967296" "g < length cols" "g < length out" "\<not> g + P < N"
    "0 \<le> cols ! g" "nat (cols ! g) < length inp"
    using True N len cols by simp_all
  show ?thesis using True b
    by (simp add: prolongate_vector_k_thread_def g[symmetric] Let_def while_loop.simps
          rd_def wr_def rdi_def wrap32_id)
qed

lemma two_threads_of_index_0:
  "2 \<le> length (filter (\<lambda>(b, t). global_id 64 b t = 0) (grid 67108928 64))"
proof -
  have d: "distinct (grid 67108928 64)" by (simp add: grid_def distinct_product)
  have "{(0, 0), (67108864, 0)} \<subseteq> {x. (\<lambda>(b, t). global_id 64 b t = 0) x} \<inter> set (grid 67108928 64)"
    by (simp add: grid_set global_id_def wrap32_def)
  then have "card {(0::nat, 0::nat), (67108864, 0)}
             \<le> card ({x. (\<lambda>(b, t). global_id 64 b t = 0) x} \<inter> set (grid 67108928 64))"
    by (intro card_mono) simp_all
  then show ?thesis unfolding distinct_length_filter[OF d] by simp
qed

lemma prolongate_vector_wrapped:
  assumes len: "length cols = 67108865" "length out = 67108865"
    and cols: "\<forall>i<67108865. 0 \<le> cols ! i \<and> nat (cols ! i) < length inp"
    and pos: "0 < inp ! nat (cols ! 0)"
  shows "prolongate_vector True inp out cols 67108865 \<noteq>
         Completed (map (\<lambda>i. out ! i + inp ! nat (cols ! i)) [0..<67108865])"
proof -
  let ?N = "67108865::nat" and ?G = "67108928::nat"
  let ?f = "\<lambda>(b, t). prolongate_vector_k_thread ?G 64 b t inp cols ?N"
  have g: "wrap32 (ceilDivision 67108865 64 * 64) = ?G" "u32 67108865 = ?N"
    by (simp_all add: u32_def ceilDivision_def wrap32_def)
  have "\<exists>s'. run_threads ?f (grid ?G 64) out = Some s' \<and> length s' = ?N
           \<and> s' ! 0 = out ! 0
              + real (length (filter (\<lambda>x. (\<lambda>(b, t). global_id 64 b t) x = 0) (grid ?G 64)))
                * (\<lambda>r. inp ! nat (cols ! r)) 0"
  proof (rule run_threads_count[where N = ?N])
    fix x :: "nat \<times> nat" and s :: vec assume "length s = ?N"
    then show "?f x s = Some (if (\<lambda>(b, t). global_id 64 b t) x < ?N
         then s[(\<lambda>(b, t). global_id 64 b t) x :=
                  s ! (\<lambda>(b, t). global_id 64 b t) x + inp ! nat (cols ! (\<lambda>(b, t). global_id 64 b t) x)]
         else s)"
      using prolongate_vector_k_thread_wrapped[where P = ?G and N = ?N and cols = cols and inp = inp
          and out = s and blockDim = 64 and blockIdx = "fst x" and threadIdx = "snd x", OF _ _ cols _ _ refl] len
      by (cases x) simp
  qed (simp_all add: len)
  then obtain s' where s': "run_threads ?f (grid ?G 64) out = Some s'" "length s' = ?N"
    "s' ! 0 = out ! 0 + real (length (filter (\<lambda>(b, t). global_id 64 b t = 0) (grid ?G 64)))
                * inp ! nat (cols ! 0)"
    by (auto simp: split_def)
  have "2 * inp ! nat (cols ! 0) \<le> real (length (filter (\<lambda>(b, t). global_id 64 b t = 0) (grid ?G 64)))
                * inp ! nat (cols ! 0)"
    using two_threads_of_index_0 pos by (intro mult_right_mono) simp_all
  then have "out ! 0 + inp ! nat (cols ! 0) < s' ! 0" using s'(3) pos by linarith
  moreover have "map (\<lambda>i. out ! i + inp ! nat (cols ! i)) [0..<67108865] ! 0 = out ! 0 + inp ! nat (cols ! 0)"
    by (simp add: nth_map_upt del: upt_Suc)
  ultimately have "s' \<noteq> map (\<lambda>i. out ! i + inp ! nat (cols ! i)) [0..<67108865]" by auto
  then show ?thesis using s'(1) by (simp add: prolongate_vector_def g prolongate_vector_k_def Let_def)
qed

subsection \<open>full_to_pressure_restriction with indices that wrap\<close>

lemma restricted_wrapped_eq:
  "3 * row + 2 < 4294967296 \<Longrightarrow> restricted_wrapped fine_y weights row = restricted fine_y weights row"
  by (simp add: restricted_wrapped_def restricted_def wrap32_id)

lemma full_to_pressure_restriction_k_thread_wrapped:
  assumes N: "Nb \<le> P" "Nb + P \<le> 4294967296"
    and len: "3 * Nb \<le> length fine_y" "3 * Nb \<le> length weights" "Nb \<le> length coarse_y"
    and g: "g = global_id blockDim blockIdx threadIdx"
  shows "full_to_pressure_restriction_k_thread P blockDim blockIdx threadIdx fine_y weights Nb coarse_y =
         Some (if g < Nb then coarse_y[g := restricted_wrapped fine_y weights g] else coarse_y)"
proof (cases "g < Nb")
  case False
  then show ?thesis
    by (simp add: full_to_pressure_restriction_k_thread_def g[symmetric] while_loop.simps)
next
  case True
  have i: "wrap32 (wrap32 (3 * g) + i) < length fine_y" "wrap32 (wrap32 (3 * g) + i) < length weights"
    if "i < 3" for i
  proof -
    have "wrap32 (wrap32 (3 * g) + i) \<le> wrap32 (3 * g) + i" by (simp add: wrap32_def)
    also have "\<dots> \<le> 3 * g + i" by (simp add: wrap32_def)
    also have "\<dots> < 3 * Nb" using True that by simp
    finally show "wrap32 (wrap32 (3 * g) + i) < length fine_y" "wrap32 (wrap32 (3 * g) + i) < length weights"
      using len by simp_all
  qed
  have b: "g + P < 4294967296" "g < length coarse_y" "\<not> g + P < Nb"
    using True N len by simp_all
  have w: "wrap32 (g + P) = g + P" using b by (simp add: wrap32_def)
  define body :: "nat \<times> real \<Rightarrow> (nat \<times> real) option" where
    "body = (\<lambda>(i, sum). do {
                        f \<leftarrow> rd fine_y (wrap32 (wrap32 (3 * g) + i));
                        w \<leftarrow> rd weights (wrap32 (wrap32 (3 * g) + i));
                        Some (wrap32 (i + 1), sum + f * w) })"
  let ?a = "\<lambda>i. fine_y ! wrap32 (wrap32 (3 * g) + i) * weights ! wrap32 (wrap32 (3 * g) + i)"
  define c :: "nat \<times> real \<Rightarrow> bool" where "c = (\<lambda>(i, sum). i < 3)"
  have c: "c (0, v)" "c (1, v)" "c (2, v)" "\<not> c (3, v)" for v by (simp_all add: c_def)
  have s0: "body (0, v) = Some (1, v + ?a 0)" for v
    using i[of 0] by (simp add: body_def rd_def wrap32_def)
  have s1: "body (1, v) = Some (2, v + ?a 1)" for v
    using i[of 1] by (simp add: body_def rd_def wrap32_def)
  have s2: "body (2, v) = Some (3, v + ?a 2)" for v
    using i[of 2] by (simp add: body_def rd_def wrap32_def)
  have l3: "while_loop c body (3, v) = Some (3, v)" for v
    by (subst while_loop.simps) (simp only: c if_False)
  have l2: "while_loop c body (2, v) = Some (3, v + ?a 2)" for v
    by (subst while_loop.simps) (simp only: c if_True s2 bind.bind_lunit l3)
  have l1: "while_loop c body (1, v) = Some (3, v + ?a 1 + ?a 2)" for v
    by (subst while_loop.simps) (simp only: c if_True s1 bind.bind_lunit l2)
  have l0: "while_loop c body (0, v) = Some (3, v + ?a 0 + ?a 1 + ?a 2)" for v
    by (subst while_loop.simps) (simp only: c if_True s0 bind.bind_lunit l1)
  have inner: "while_loop (\<lambda>(i, sum). i < 3) body (0, 0) = Some (3, restricted_wrapped fine_y weights g)"
    using l0[of 0] by (simp only: c_def restricted_wrapped_def)
  define obody :: "nat \<times> vec \<Rightarrow> (nat \<times> vec) option" where
    "obody = (\<lambda>(target_block_row, coarse_y). do {
                 let idx = wrap32 (3 * target_block_row);
                 (i, sum) \<leftarrow> while_loop (\<lambda>(i, sum). i < 3)
                    (\<lambda>(i, sum). do {
                        f \<leftarrow> rd fine_y (wrap32 (idx + i));
                        w \<leftarrow> rd weights (wrap32 (idx + i));
                        Some (wrap32 (i + 1), sum + f * w) })
                    (0, 0);
                 coarse_y' \<leftarrow> wr coarse_y target_block_row sum;
                 Some (wrap32 (target_block_row + P), coarse_y') })"
  have ostep: "obody (g, coarse_y) = Some (g + P, coarse_y[g := restricted_wrapped fine_y weights g])"
    unfolding obody_def split_conv Let_def body_def[symmetric] inner
    using b by (simp add: wr_def w)
  have "while_loop (\<lambda>(target_block_row, coarse_y). target_block_row < Nb) obody (g, coarse_y)
        = Some (g + P, coarse_y[g := restricted_wrapped fine_y weights g])"
    apply (subst while_loop.simps, simp add: True ostep)
    apply (subst while_loop.simps, simp add: b)
    done
  then show ?thesis using True
    by (simp add: full_to_pressure_restriction_k_thread_def g[symmetric] Let_def obody_def)
qed

lemma full_to_pressure_restriction_wrapped_result:
  assumes N: "0 \<le> Nb" "Nb < 2147483648"
    and len: "3 * nat Nb \<le> length fine_y" "3 * nat Nb \<le> length weights" "nat Nb \<le> length coarse_y"
  shows "full_to_pressure_restriction True fine_y weights coarse_y Nb =
         Completed (map (\<lambda>row. if row < nat Nb then restricted_wrapped fine_y weights row
                               else coarse_y ! row) [0..<length coarse_y])"
proof -
  let ?G = "ceilDivision (nat Nb) 64 * 64"
  let ?f = "\<lambda>(b, t). full_to_pressure_restriction_k_thread ?G 64 b t fine_y weights (nat Nb)"
  have u: "u32 Nb = nat Nb" using N by (simp add: u32_id)
  have lo: "nat Nb \<le> ?G" by (rule ceilDivision_cover) simp
  have "nat Nb \<le> 33554432 * 64" using N by simp
  then have "?G \<le> 33554432 * 64" by (intro ceilDivision_le) simp
  then have hi: "?G \<le> 2147483648" by simp
  then have w: "wrap32 ?G = ?G" by (simp add: wrap32_id)
  have "run_threads ?f (grid ?G 64) coarse_y =
        Some (map (\<lambda>i. if i < nat Nb \<and> i \<in> (\<lambda>(b, t). global_id 64 b t) ` set (grid ?G 64)
                         then restricted_wrapped fine_y weights i else coarse_y ! i) [0..<length coarse_y])"
  proof (rule run_threads_overwrite)
    fix x :: "nat \<times> nat" and s :: vec assume "length s = length coarse_y"
    then show "?f x s = Some (if (\<lambda>(b, t). global_id 64 b t) x < nat Nb
         then s[(\<lambda>(b, t). global_id 64 b t) x :=
                  restricted_wrapped fine_y weights ((\<lambda>(b, t). global_id 64 b t) x)]
         else s)"
      using full_to_pressure_restriction_k_thread_wrapped[where P = ?G and Nb = "nat Nb"
          and fine_y = fine_y and weights = weights and coarse_y = s and blockDim = 64
          and blockIdx = "fst x" and threadIdx = "snd x", OF lo _ len(1,2) _ refl] N hi len(3)
      by (cases x) simp
  qed simp
  moreover have "i \<in> (\<lambda>(b, t). global_id 64 b t) ` set (grid ?G 64)" if "i < nat Nb" for i
  proof -
    have "i div 64 < ?G" using that lo by (meson div_le_dividend le_less_trans less_le_trans)
    then have "(i div 64, i mod 64) \<in> set (grid ?G 64)" by (simp add: grid_set)
    moreover have "64 * (i div 64) + i mod 64 < 4294967296" using that N by simp
    then have "global_id 64 (i div 64) (i mod 64) = i" by (simp add: global_id_eq)
    ultimately show ?thesis by force
  qed
  ultimately have "run_threads ?f (grid ?G 64) coarse_y =
        Some (map (\<lambda>i. if i < nat Nb then restricted_wrapped fine_y weights i else coarse_y ! i)
                [0..<length coarse_y])"
    by (simp cong: if_cong del: upt_Suc)
  then show ?thesis
    by (simp add: full_to_pressure_restriction_def full_to_pressure_restriction_k_def u w Let_def)
qed

lemma restriction_index_overflow:
  assumes len: "length fine_y = 4294967298" "length weights = 4294967298" "length coarse_y = 1431655766"
    and ne: "fine_y ! 4294967295 * weights ! 4294967295 + fine_y ! 0 * weights ! 0 + fine_y ! 1 * weights ! 1
             \<noteq> restricted fine_y weights 1431655765"
  shows "full_to_pressure_restriction True fine_y weights coarse_y 1431655766
         \<noteq> Completed (map (restricted fine_y weights) [0..<1431655766])"
proof
  let ?r = "map (\<lambda>row. if row < nat 1431655766 then restricted_wrapped fine_y weights row
                               else coarse_y ! row) [0..<length coarse_y]"
  assume a: "full_to_pressure_restriction True fine_y weights coarse_y 1431655766
         = Completed (map (restricted fine_y weights) [0..<1431655766])"
  have "full_to_pressure_restriction True fine_y weights coarse_y 1431655766 = Completed ?r"
    by (rule full_to_pressure_restriction_wrapped_result) (simp_all add: len)
  then have "?r = map (restricted fine_y weights) [0..<1431655766]" using a by simp
  then have "?r ! 1431655765 = map (restricted fine_y weights) [0..<1431655766] ! 1431655765" by simp
  then have "restricted_wrapped fine_y weights 1431655765 = restricted fine_y weights 1431655765"
    by (simp add: nth_map_upt len del: upt_Suc)
  moreover have "restricted_wrapped fine_y weights 1431655765
     = fine_y ! 4294967295 * weights ! 4294967295 + fine_y ! 0 * weights ! 0 + fine_y ! 1 * weights ! 1"
    by (simp add: restricted_wrapped_def wrap32_def)
  ultimately show False using ne by simp
qed

subsection \<open>add_coarse_pressure_correction at any offset\<close>

lemma add_coarse_pressure_correction_k_thread_offset:
  assumes g: "blockDim * blockIdx + threadIdx = g" "g < 4294967296"
    and N: "Nb \<le> P" "Nb + P \<le> 4294967296"
    and len: "Nb \<le> length coarse_x" "\<forall>row<Nb. 3 * row + p < length fine_x"
      "3 * Nb + p \<le> 4294967296"
  shows "add_coarse_pressure_correction_k_thread P blockDim blockIdx threadIdx coarse_x p Nb fine_x =
         Some (if g < Nb then fine_x[3 * g + p := fine_x ! (3 * g + p) + coarse_x ! g] else fine_x)"
proof -
  have gid: "global_id blockDim blockIdx threadIdx = g"
    using g by (simp add: global_id_eq)
  show ?thesis
  proof (cases "g < Nb")
    case False
    then show ?thesis
      by (simp add: add_coarse_pressure_correction_k_thread_def gid while_loop.simps)
  next
    case True
    have i: "3 * g + p < length fine_x" using True len by simp
    have "3 * g + p < 3 * Nb + p" using True by simp
    then have b: "g * 3 < 4294967296" "g * 3 + p < 4294967296" "g * 3 + p < length fine_x"
      using len(3) i by (simp_all add: mult.commute)
    have b2: "g + P < 4294967296" "g < length coarse_x" "\<not> g + P < Nb"
      using True N len by simp_all
    show ?thesis using True b b2
      by (simp add: add_coarse_pressure_correction_k_thread_def gid Let_def while_loop.simps
            rd_def wr_def wrap32_id mult.commute)
  qed
qed

lemma add_coarse_pressure_correction_k_offset:
  assumes N: "Nb \<le> P" "Nb + P \<le> 4294967296"
    and PB: "P * B \<le> 4294967296" and B: "0 < B"
    and len: "Nb \<le> length coarse_x" "\<forall>row<Nb. 3 * row + p < length fine_x"
      "3 * Nb + p \<le> 4294967296"
  shows "add_coarse_pressure_correction_k P B coarse_x fine_x p Nb =
         Some (map (\<lambda>j. if p \<le> j \<and> (j - p) mod 3 = 0 \<and> (j - p) div 3 < Nb
                        then fine_x ! j + coarse_x ! ((j - p) div 3) else fine_x ! j)
                 [0..<length fine_x])"
proof -
  have "\<exists>s'. run_threads (\<lambda>(b, t). add_coarse_pressure_correction_k_thread P B b t coarse_x p Nb)
               (grid P B) fine_x = Some s'
          \<and> length s' = length fine_x
          \<and> (\<forall>g<min (P * B) Nb. (\<lambda>g. 3 * g + p) g < length fine_x \<longrightarrow>
                 s' ! ((\<lambda>g. 3 * g + p) g) = (\<lambda>g v. v + coarse_x ! g) g (fine_x ! ((\<lambda>g. 3 * g + p) g)))
          \<and> (\<forall>i<length fine_x. i \<notin> (\<lambda>g. 3 * g + p) ` {..<min (P * B) Nb} \<longrightarrow> s' ! i = fine_x ! i)"
  proof (rule launch_scatter)
    fix b t and s :: vec assume b: "b < P" and t: "t < B" and l: "length s = length fine_x"
    have "B * b + t < P * B" using b t by (intro grid_bound) (simp add: grid_def)
    then have "B * b + t < 4294967296" using PB by simp
    then show "add_coarse_pressure_correction_k_thread P B b t coarse_x p Nb s =
      Some (if B * b + t < Nb
            then s[3 * (B * b + t) + p := s ! (3 * (B * b + t) + p) + coarse_x ! (B * b + t)] else s)"
      using add_coarse_pressure_correction_k_thread_offset[where blockDim=B and blockIdx=b
          and threadIdx=t and fine_x=s and P=P and p=p, OF refl _ N len(1)] len(2,3) l by simp
  next
    show "inj_on (\<lambda>g. 3 * g + p) {..<Nb}" by (simp add: inj_on_def)
  qed simp
  then obtain s' where
    run: "add_coarse_pressure_correction_k P B coarse_x fine_x p Nb = Some s'"
    and l: "length s' = length fine_x"
    and hit: "\<forall>g<min (P * B) Nb. 3 * g + p < length fine_x \<longrightarrow>
                 s' ! (3 * g + p) = fine_x ! (3 * g + p) + coarse_x ! g"
    and miss: "\<forall>i<length fine_x. i \<notin> (\<lambda>g. 3 * g + p) ` {..<min (P * B) Nb} \<longrightarrow> s' ! i = fine_x ! i"
    by (auto simp: add_coarse_pressure_correction_k_def)
  have m: "min (P * B) Nb = Nb" using N B by (simp add: min_grid)
  let ?hit = "\<lambda>j. p \<le> j \<and> (j - p) mod 3 = 0 \<and> (j - p) div 3 < Nb"
  have "s' = map (\<lambda>j. if ?hit j then fine_x ! j + coarse_x ! ((j - p) div 3) else fine_x ! j)
                 [0..<length fine_x]"
  proof (intro nth_equalityI)
    show "length s' = length (map (\<lambda>j. if ?hit j then fine_x ! j + coarse_x ! ((j - p) div 3)
                                       else fine_x ! j) [0..<length fine_x])" using l by simp
  next
    fix j assume "j < length s'"
    then have j: "j < length fine_x" using l by simp
    show "s' ! j = map (\<lambda>j. if ?hit j then fine_x ! j + coarse_x ! ((j - p) div 3) else fine_x ! j)
                 [0..<length fine_x] ! j"
    proof (cases "?hit j")
      case True
      then have "3 * ((j - p) div 3) = j - p" by auto
      then have e: "3 * ((j - p) div 3) + p = j" using True by simp
      have "(j - p) div 3 < min (P * B) Nb" "3 * ((j - p) div 3) + p < length fine_x"
        using True j e by (simp_all add: m)
      with hit have "s' ! (3 * ((j - p) div 3) + p)
                     = fine_x ! (3 * ((j - p) div 3) + p) + coarse_x ! ((j - p) div 3)"
        by blast
      then show ?thesis using True j by (simp add: e del: upt_Suc)
    next
      case False
      have "j \<notin> (\<lambda>g. 3 * g + p) ` {..<Nb}"
      proof
        assume "j \<in> (\<lambda>g. 3 * g + p) ` {..<Nb}"
        then obtain g where g: "g < Nb" "j = 3 * g + p" by auto
        then have "p \<le> j" "(j - p) mod 3 = 0" "(j - p) div 3 = g" by simp_all
        then show False using False g by simp
      qed
      with miss j have "s' ! j = fine_x ! j" by (simp add: m)
      moreover have "map (\<lambda>j. if ?hit j then fine_x ! j + coarse_x ! ((j - p) div 3) else fine_x ! j)
                 [0..<length fine_x] ! j
            = (if ?hit j then fine_x ! j + coarse_x ! ((j - p) div 3) else fine_x ! j)"
        using j by (simp only: nth_map length_upt diff_zero nth_upt add_0)
      ultimately show ?thesis using False by (simp only: if_False)
    qed
  qed
  then show ?thesis using run by simp
qed

lemma add_coarse_pressure_correction_offset:
  assumes N: "0 \<le> Nb" "Nb \<le> 67108864" and p: "0 \<le> p"
    and len: "nat Nb \<le> length coarse_x" "\<forall>row<nat Nb. 3 * row + nat p < length fine_x"
      "3 * nat Nb + nat p \<le> 4294967296"
  shows "add_coarse_pressure_correction True coarse_x fine_x p Nb =
         Completed (map (\<lambda>j. if nat p \<le> j \<and> (j - nat p) mod 3 = 0 \<and> (j - nat p) div 3 < nat Nb
                        then fine_x ! j + coarse_x ! ((j - nat p) div 3) else fine_x ! j)
                 [0..<length fine_x])"
proof (cases "Nb = 0")
  case True
  have "map (\<lambda>j. fine_x ! j) [0..<length fine_x] = fine_x" by (rule map_nth)
  then show ?thesis using True
    by (simp add: add_coarse_pressure_correction_def add_coarse_pressure_correction_k_def
          u32_def ceilDivision_def wrap32_def grid_def)
next
  case False
  let ?G = "wrap32 (ceilDivision (u32 Nb) 64 * 64)"
  have h: "u32 Nb = nat Nb" "nat Nb \<le> ?G" "?G \<le> 64 * 1048576"
    using host_grid[of Nb 1048576] N by simp_all
  have "0 < nat Nb" using False N by simp
  then have "nat p < 4294967296" using len(3) by linarith
  then have "p < 4294967296" by linarith
  then have up: "u32 p = nat p" using p by (simp add: u32_id)
  have "add_coarse_pressure_correction_k ?G 64 coarse_x fine_x (nat p) (nat Nb) =
         Some (map (\<lambda>j. if nat p \<le> j \<and> (j - nat p) mod 3 = 0 \<and> (j - nat p) div 3 < nat Nb
                        then fine_x ! j + coarse_x ! ((j - nat p) div 3) else fine_x ! j)
                 [0..<length fine_x])"
    using N h len by (intro add_coarse_pressure_correction_k_offset) simp_all
  then show ?thesis by (simp add: add_coarse_pressure_correction_def h(1) up)
qed

subsection \<open>The pressure kernels on blocks of another size\<close>

lemma grid_first_two: "0 < G \<Longrightarrow> 2 \<le> B \<Longrightarrow> \<exists>rest. grid G B = (0, 0) # (0, 1) # rest"
proof -
  assume G: "0 < G" and B: "2 \<le> B"
  have g: "[0..<G] = 0 # [1..<G]" using G by (simp add: upt_conv_Cons)
  have "[0..<B] = 0 # [1..<B]" using B by (simp add: upt_conv_Cons)
  moreover have "[1..<B] = 1 # [Suc 1..<B]" using B by (simp add: upt_conv_Cons)
  ultimately have b: "[0..<B] = 0 # 1 # [Suc 1..<B]" by simp
  show ?thesis unfolding grid_def g b by simp
qed

lemma full_to_pressure_restriction_k_thread_fails:
  assumes g: "g = global_id blockDim blockIdx threadIdx" "g < Nb"
    and i: "i < 3" "\<not> wrap32 (wrap32 (3 * g) + i) < length fine_y"
  shows "full_to_pressure_restriction_k_thread P blockDim blockIdx threadIdx fine_y weights Nb coarse_y
         = None"
proof -
  define body :: "nat \<times> real \<Rightarrow> (nat \<times> real) option" where
    "body = (\<lambda>(i, sum). do {
                        f \<leftarrow> rd fine_y (wrap32 (wrap32 (3 * g) + i));
                        w \<leftarrow> rd weights (wrap32 (wrap32 (3 * g) + i));
                        Some (wrap32 (i + 1), sum + f * w) })"
  define c :: "nat \<times> real \<Rightarrow> bool" where "c = (\<lambda>(i, sum). i < 3)"
  have c: "c (0, v)" "c (1, v)" "c (2, v)" for v by (simp_all add: c_def)
  have f: "body (i, v) = None" for v using i by (simp add: body_def rd_def)
  have s: "body (j, v) = None \<or> (\<exists>v'. body (j, v) = Some (j + 1, v'))" if "j < 3" for j v
    using that by (auto simp: body_def rd_def wrap32_def)
  have l: "while_loop c body (i, v) = None" for v
    using i(1) f by (subst while_loop.simps) (simp add: c_def)
  have l2: "while_loop c body (2, v) = None" if "i = 2" for v using l that by simp
  have l1: "while_loop c body (1, v) = None" if "i = 1 \<or> i = 2" for v
  proof (cases "i = 1")
    case True
    then show ?thesis using l by simp
  next
    case False
    then have i2: "i = 2" using that by simp
    from s[of 1 v] show ?thesis
    proof
      assume "body (1, v) = None"
      then show ?thesis by (subst while_loop.simps) (simp only: c if_True bind.bind_lzero)
    next
      assume "\<exists>v'. body (1, v) = Some (1 + 1, v')"
      then obtain v' where "body (1, v) = Some (2, v')" by auto
      then show ?thesis
        by (subst while_loop.simps) (simp only: c if_True bind.bind_lunit l2[OF i2])
    qed simp
  qed
  have l0: "while_loop c body (0, v) = None" for v
  proof (cases "i = 0")
    case True
    then show ?thesis using l by simp
  next
    case False
    then have i12: "i = 1 \<or> i = 2" using i(1) by linarith
    from s[of 0 v] show ?thesis
    proof
      assume "body (0, v) = None"
      then show ?thesis by (subst while_loop.simps) (simp only: c if_True bind.bind_lzero)
    next
      assume "\<exists>v'. body (0, v) = Some (0 + 1, v')"
      then obtain v' where "body (0, v) = Some (1, v')" by auto
      then show ?thesis
        by (subst while_loop.simps) (simp only: c if_True bind.bind_lunit l1[OF i12])
    qed simp
  qed
  define obody :: "nat \<times> vec \<Rightarrow> (nat \<times> vec) option" where
    "obody = (\<lambda>(target_block_row, coarse_y). do {
                 let idx = wrap32 (3 * target_block_row);
                 (i, sum) \<leftarrow> while_loop (\<lambda>(i, sum). i < 3)
                    (\<lambda>(i, sum). do {
                        f \<leftarrow> rd fine_y (wrap32 (idx + i));
                        w \<leftarrow> rd weights (wrap32 (idx + i));
                        Some (wrap32 (i + 1), sum + f * w) })
                    (0, 0);
                 coarse_y' \<leftarrow> wr coarse_y target_block_row sum;
                 Some (wrap32 (target_block_row + P), coarse_y') })"
  have ostep: "obody (g, coarse_y) = None"
    unfolding obody_def split_conv Let_def body_def[symmetric] c_def[symmetric] l0 by simp
  have "while_loop (\<lambda>(target_block_row, coarse_y). target_block_row < Nb) obody (g, coarse_y) = None"
    by (subst while_loop.simps) (simp add: g(2) ostep)
  then show ?thesis
    by (simp add: full_to_pressure_restriction_k_thread_def g(1)[symmetric] Let_def obody_def)
qed

lemma restriction_other_block_size:
  assumes "bs \<noteq> 3" "0 < bs"
  shows "full_to_pressure_restriction True (replicate bs 1) (replicate bs 1) [0] 1
         \<noteq> Completed [real bs]"
proof (cases "3 < bs")
  case True
  have "full_to_pressure_restriction True (replicate bs 1) (replicate bs 1) [0] 1
        = Completed (map (\<lambda>row. if row < nat 1 then restricted (replicate bs 1) (replicate bs 1) row
                                else [0] ! row) [0..<length [0::real]])"
    using True by (intro full_to_pressure_restriction_result) simp_all
  also have "\<dots> = Completed [3]" using True by (simp add: restricted_def)
  finally show ?thesis using assms by simp
next
  case False
  then have bs: "bs < 3" using assms by linarith
  have g: "wrap32 (ceilDivision 1 64 * 64) = 64" "u32 1 = 1"
    by (simp_all add: u32_def ceilDivision_def wrap32_def)
  have t: "(0, 0) \<in> set (grid 64 64)" by (simp add: grid_set)
  have "full_to_pressure_restriction_k_thread 64 64 0 0 (replicate bs 1) (replicate bs 1) 1 s = None" for s
  proof (rule full_to_pressure_restriction_k_thread_fails[where g = 0 and i = bs])
    show "0 = global_id 64 0 0" by (simp add: global_id_def wrap32_def)
    show "\<not> wrap32 (wrap32 (3 * 0) + bs) < length (replicate bs (1::real))"
      using bs by (simp add: wrap32_def)
  qed (use bs in simp_all)
  then have "run_threads (\<lambda>(b, t). full_to_pressure_restriction_k_thread 64 64 b t
                 (replicate bs 1) (replicate bs 1) 1) (grid 64 64) [0] = None"
    using t by (intro run_threads_fails[where t = "(0, 0)"]) simp_all
  then show ?thesis
    by (simp add: full_to_pressure_restriction_def full_to_pressure_restriction_k_def g Let_def
          del: One_nat_def)
qed

lemma correction_other_block_size:
  assumes "bs \<noteq> 3" "0 < bs"
  shows "add_coarse_pressure_correction True [1, 1] (replicate (2 * bs) 0) 0 2
         \<noteq> Completed ((replicate (2 * bs) 0)[0 := 1, bs := 1])"
proof (cases "bs = 1")
  case False
  then have bs: "2 \<le> bs" using assms by simp
  let ?r = "map (\<lambda>j. if nat 0 \<le> j \<and> (j - nat 0) mod 3 = 0 \<and> (j - nat 0) div 3 < nat 2
                        then replicate (2 * bs) (0::real) ! j + [1, 1] ! ((j - nat 0) div 3)
                        else replicate (2 * bs) 0 ! j) [0..<length (replicate (2 * bs) (0::real))]"
  have "\<forall>row<nat 2. 3 * row + nat 0 < length (replicate (2 * bs) (0::real))"
    using bs by (auto simp: less_Suc_eq numeral_2_eq_2)
  then have "add_coarse_pressure_correction True [1, 1] (replicate (2 * bs) 0) 0 2 = Completed ?r"
    by (intro add_coarse_pressure_correction_offset) simp_all
  moreover have "?r ! 3 = 1" using bs by (simp del: upt_Suc)
  moreover have "(replicate (2 * bs) (0::real))[0 := 1, bs := 1] ! 3 = 0"
    using bs assms by (simp add: nth_list_update)
  ultimately show ?thesis by auto
next
  case True
  have g: "wrap32 (ceilDivision 2 64 * 64) = 64" "u32 2 = 2" "u32 0 = 0"
    by (simp_all add: u32_def ceilDivision_def wrap32_def)
  obtain rest where r: "grid 64 64 = (0, 0) # (0, 1) # rest"
    using grid_first_two[of 64 64] by auto
  have 1: "add_coarse_pressure_correction_k_thread 64 64 0 0 [1, 1] 0 2 [0, 0] = Some [1, 0]"
    apply (simp add: add_coarse_pressure_correction_k_thread_def global_id_def wrap32_def Let_def)
    apply (subst while_loop.simps, simp add: rd_def wr_def wrap32_def)
    apply (subst while_loop.simps, simp)
    done
  have 2: "add_coarse_pressure_correction_k_thread 64 64 0 1 [1, 1] 0 2 [1, 0] = None"
    apply (simp add: add_coarse_pressure_correction_k_thread_def global_id_def wrap32_def Let_def)
    apply (subst while_loop.simps, simp add: rd_def wr_def wrap32_def)
    done
  have "add_coarse_pressure_correction_k 64 64 [1, 1] [0, 0] 0 2 = None"
    unfolding add_coarse_pressure_correction_k_def r
    by (simp only: run_threads.simps split_conv 1 2 bind.bind_lunit bind.bind_lzero)
  moreover have "replicate (2 * bs) (0::real) = [0, 0]" using True by (simp add: numeral_2_eq_2)
  ultimately show ?thesis
    by (simp add: add_coarse_pressure_correction_def g Let_def del: One_nat_def)
qed

section \<open>The claims\<close>

text \<open>
  The sizes in the hypotheses below keep the 32-bit index arithmetic of the kernels in
  range: with \<open>64\<close> threads in each of the \<open>ceilDivision N 64 * 64\<close> groups of a host
  launch, the global thread index stays below \<open>2^32\<close> for \<open>N \<le> 2^26\<close>, and below
  \<open>2^31\<close> (the \<^verbatim>\<open>int\<close> index of \<open>vmul_k\<close>) for \<open>N \<le> 2^25\<close>; the index \<open>3 * row + i\<close>
  of the restriction stays below \<open>2^32\<close> for \<open>Nb \<le> 1431655765\<close>. Beyond these sizes the
  kernels do something else, which the counterexamples of C5, C6, C7 and C10 show. An
  equality between a result of the code and a sum taken in another order is an equality
  of real numbers: it holds in exact arithmetic, and on doubles up to rounding.
\<close>

subsection \<open>C1: the sparse matrix-vector product\<close>

text \<open>
  C1, as stated, has \<open>spmv\<close> compute the reference product also for matrices of block
  size 3. \<open>spmv\<close> launches \<open>spmv_k\<close> whatever its argument \<open>block_size\<close> (the source notes
  that the kernel is used for block size 1 only), which reads the arrays as a scalar
  matrix with \<open>Nb\<close> rows: for the single identity block of size 3 and \<open>x = [1, 2, 3]\<close> it
  writes \<open>y[0] = 1\<close> and nothing else, where the product is \<open>[1, 2, 3]\<close>.
\<close>

theorem spmv_block_size_three_counterexample:
  "bsr_matrix 1 3 [1, 0, 0, 0, 1, 0, 0, 0, 1] [0] [0, 1]
   \<and> ref_spmv 1 3 [1, 0, 0, 0, 1, 0, 0, 0, 1] [0] [0, 1] [1, 2, 3] = [1, 2, 3]
   \<and> spmv True [1, 0, 0, 0, 1, 0, 0, 0, 1] [0] [0, 1] [1, 2, 3] [0, 0, 0] 1 3 = Completed [1, 0, 0]
   \<and> spmv True [1, 0, 0, 0, 1, 0, 0, 0, 1] [0] [0, 1] [1, 2, 3] [0, 0, 0] 1 3
       \<noteq> Completed (ref_spmv 1 3 [1, 0, 0, 0, 1, 0, 0, 0, 1] [0] [0, 1] [1, 2, 3])"
proof -
  have 1: "bsr_matrix 1 3 [1, 0, 0, 0, 1, 0, 0, 0, 1] [0] [0, 1]" by (simp add: bsr_matrix_def)
  have 2: "ref_spmv 1 3 [1, 0, 0, 0, 1, 0, 0, 0, 1] [0] [0, 1] [1, 2, 3] = [1, 2, 3]"
    by (simp add: ref_spmv_def upt_conv_Cons)
  have "spmv True [1, 0, 0, 0, 1, 0, 0, 0, 1] [0] [0, 1] [1, 2, 3] [0, 0, 0] 1 3 =
         Completed (map (\<lambda>row. if row < nat 1
              then row_product [1, 0, 0, 0, 1, 0, 0, 0, 1] [0] [0, 1] [1, 2, 3] row
              else [0, 0, 0] ! row) [0..<length [0, 0, 0::real]])"
    by (rule spmv_result) simp_all
  then have 3: "spmv True [1, 0, 0, 0, 1, 0, 0, 0, 1] [0] [0, 1] [1, 2, 3] [0, 0, 0] 1 3
                = Completed [1, 0, 0]"
    by (simp add: row_product_def upt_conv_Cons)
  show ?thesis using 1 2 3 by simp
qed

text \<open>
  C1, amended. In exact arithmetic (a \<^verbatim>\<open>double\<close> is a real number here: no rounding, no
  infinity, no NaN), for every block-sparse matrix with block size 1 of at most \<open>2^26\<close>
  rows and fewer than \<open>2^31 - 64\<close> stored entries, and vectors of its size, \<open>spmv\<close> writes
  into \<open>y\<close> the reference product \<open>matrix * x\<close>; for the matrix \<open>[[4, 1], [2, 3]]\<close> and
  \<open>x = [1, 1]\<close> this is \<open>[5, 5]\<close>. The kernel adds the terms of a row in the order of its
  64 strided partial sums and their reduction by halving, the reference one after the
  other: on doubles the two sums agree up to rounding only.
\<close>

theorem spmv_scalar_reference_product:
  assumes "bsr_matrix Nb 1 vals cols rows"
    and "Nb \<le> 67108864" "length cols + 64 \<le> 2147483648"
    and "length x = Nb" "length y = Nb"
  shows "spmv True vals cols rows x y (int Nb) 1 = Completed (ref_spmv Nb 1 vals cols rows x)
         \<and> spmv True [4, 1, 2, 3] [0, 1, 0, 1] [0, 2, 4] [1, 1] [0, 0] 2 1 = Completed [5, 5]"
proof -
  have "spmv True [4, 1, 2, 3] [0, 1, 0, 1] [0, 2, 4] [1, 1] [0, 0] (int 2) 1
        = Completed (ref_spmv 2 1 [4, 1, 2, 3] [0, 1, 0, 1] [0, 2, 4] [1, 1])"
    by (rule spmv_scalar[OF example_matrix]) simp_all
  then show ?thesis using spmv_scalar[OF assms] by (simp add: example_product del: One_nat_def)
qed

theorem spmv_scalar_reference_product_witness:
  "spmv True [2, 3, 5] [1, 0, 1] [0, 1, 3] [10, 100] [0, 0] (int 2) 1 = Completed [200, 530]"
proof -
  have m: "bsr_matrix 2 1 [2, 3, 5] [1, 0, 1] [0, 1, 3]" by (simp add: bsr_matrix_def)
  have r: "ref_spmv 2 1 [2, 3, 5] [1, 0, 1] [0, 1, 3] [10, 100] = [200, 530]"
    by (simp add: ref_spmv_def upt_conv_Cons)
  show ?thesis
    using spmv_scalar_reference_product[of 2 "[2, 3, 5]" "[1, 0, 1]" "[0, 1, 3]" "[10, 100]" "[0, 0]"] m
    by (simp add: r del: One_nat_def)
qed

subsection \<open>C2: the residual and the product\<close>

text \<open>
  C2, as stated, has \<open>residual\<close> equal \<open>rhs - spmv\<close> also in the blocked variant. For a block
  size above 1 \<open>residual\<close> launches \<open>residual_blocked_k\<close>, which subtracts the product of
  the blocks, while \<open>spmv\<close> launches the scalar kernel whatever the block size: for the
  single identity block of size 3, \<open>x = [1, 2, 3]\<close> and \<open>rhs = [10, 10, 10]\<close> the residual is
  \<open>[9, 8, 7]\<close>, and \<open>rhs\<close> minus what \<open>spmv\<close> writes into a zeroed \<open>y\<close> is \<open>[9, 10, 10]\<close>.
\<close>

theorem residual_blocked_rhs_minus_spmv_counterexample:
  "bsr_matrix 1 3 [1, 0, 0, 0, 1, 0, 0, 0, 1] [0] [0, 1]
   \<and> spmv True [1, 0, 0, 0, 1, 0, 0, 0, 1] [0] [0, 1] [1, 2, 3] [0, 0, 0] 1 3 = Completed [1, 0, 0]
   \<and> residual True 64 [1, 0, 0, 0, 1, 0, 0, 0, 1] [0] [0, 1] [1, 2, 3] [10, 10, 10] [0, 0, 0] 1 3
       = Completed [9, 8, 7]
   \<and> residual True 64 [1, 0, 0, 0, 1, 0, 0, 0, 1] [0] [0, 1] [1, 2, 3] [10, 10, 10] [0, 0, 0] 1 3
       \<noteq> Completed (map2 (-) [10, 10, 10] [1, 0, 0])"
proof -
  have 1: "bsr_matrix 1 3 [1, 0, 0, 0, 1, 0, 0, 0, 1] [0] [0, 1]" by (simp add: bsr_matrix_def)
  have "spmv True [1, 0, 0, 0, 1, 0, 0, 0, 1] [0] [0, 1] [1, 2, 3] [0, 0, 0] 1 3 =
         Completed (map (\<lambda>row. if row < nat 1
              then row_product [1, 0, 0, 0, 1, 0, 0, 0, 1] [0] [0, 1] [1, 2, 3] row
              else [0, 0, 0] ! row) [0..<length [0, 0, 0::real]])"
    by (rule spmv_result) simp_all
  then have 2: "spmv True [1, 0, 0, 0, 1, 0, 0, 0, 1] [0] [0, 1] [1, 2, 3] [0, 0, 0] 1 3
                = Completed [1, 0, 0]"
    by (simp add: row_product_def upt_conv_Cons)
  have "residual True 64 [1, 0, 0, 0, 1, 0, 0, 0, 1] [0] [0, 1] [1, 2, 3] [10, 10, 10] [0, 0, 0] (int 1) 3
        = Completed (map2 (-) [10, 10, 10] (ref_spmv 1 3 [1, 0, 0, 0, 1, 0, 0, 0, 1] [0] [0, 1] [1, 2, 3]))"
    by (rule residual_blocked_result[OF 1]) simp_all
  then have 3: "residual True 64 [1, 0, 0, 0, 1, 0, 0, 0, 1] [0] [0, 1] [1, 2, 3] [10, 10, 10] [0, 0, 0] 1 3
                = Completed [9, 8, 7]"
    by (simp add: ref_spmv_def upt_conv_Cons)
  show ?thesis using 1 2 3 by simp
qed

text \<open>
  C2, amended. For every block-sparse matrix with block size 1 of at most \<open>2^26\<close> rows and
  fewer than \<open>2^31 - 64\<close> stored entries, and vectors of its size, \<open>residual\<close> writes into
  \<open>out\<close>, element by element, \<open>rhs\<close> minus what \<open>spmv\<close> writes into \<open>y\<close>; for the matrix
  \<open>[[4, 1], [2, 3]]\<close>, \<open>x = [1, 1]\<close> and \<open>rhs = [10, 10]\<close> the residual is \<open>[5, 5]\<close>.
\<close>

theorem residual_scalar_rhs_minus_spmv:
  assumes "bsr_matrix Nb 1 vals cols rows"
    and "Nb \<le> 67108864" "length cols + 64 \<le> 2147483648"
    and "length x = Nb" "length rhs = Nb" "length out = Nb" "length y = Nb"
  shows "(\<exists>s. spmv True vals cols rows x y (int Nb) 1 = Completed s
            \<and> residual True warpSize vals cols rows x rhs out (int Nb) 1 = Completed (map2 (-) rhs s))
         \<and> residual True warpSize [4, 1, 2, 3] [0, 1, 0, 1] [0, 2, 4] [1, 1] [10, 10] [0, 0] 2 1
             = Completed [5, 5]"
proof -
  have "residual True warpSize [4, 1, 2, 3] [0, 1, 0, 1] [0, 2, 4] [1, 1] [10, 10] [0, 0] (int 2) 1
        = Completed (map2 (-) [10, 10] (ref_spmv 2 1 [4, 1, 2, 3] [0, 1, 0, 1] [0, 2, 4] [1, 1]))"
    by (rule residual_scalar[OF example_matrix]) simp_all
  then have e: "residual True warpSize [4, 1, 2, 3] [0, 1, 0, 1] [0, 2, 4] [1, 1] [10, 10] [0, 0] 2 1
             = Completed [5, 5]"
    by (simp add: example_product del: One_nat_def)
  have "spmv True vals cols rows x y (int Nb) 1 = Completed (ref_spmv Nb 1 vals cols rows x)"
    using assms by (intro spmv_scalar) simp_all
  moreover have "residual True warpSize vals cols rows x rhs out (int Nb) 1 =
         Completed (map2 (-) rhs (ref_spmv Nb 1 vals cols rows x))"
    using assms by (intro residual_scalar) simp_all
  ultimately show ?thesis using e by blast
qed

theorem residual_scalar_rhs_minus_spmv_witness:
  "(\<exists>s. spmv True [2, 3, 5] [1, 0, 1] [0, 1, 3] [10, 100] [0, 0] (int 2) 1 = Completed s
      \<and> residual True 64 [2, 3, 5] [1, 0, 1] [0, 1, 3] [10, 100] [1000, 1000] [7, 7] (int 2) 1
          = Completed (map2 (-) [1000, 1000] s))"
proof -
  have m: "bsr_matrix 2 1 [2, 3, 5] [1, 0, 1] [0, 1, 3]" by (simp add: bsr_matrix_def)
  show ?thesis
    using residual_scalar_rhs_minus_spmv[of 2 "[2, 3, 5]" "[1, 0, 1]" "[0, 1, 3]" "[10, 100]"
        "[1000, 1000]" "[7, 7]" "[0, 0]" 64] m
    by (simp del: One_nat_def)
qed
subsection \<open>C3: the blocked residual\<close>




subsection \<open>C4: restriction followed by correction\<close>

text \<open>
  C4, as stated, says that restricting with all weights 1 and then adding the coarse
  vector back at offset \<open>p\<close> increments \<open>fine[3 * row + p]\<close> by its own former value.
  For the single block \<open>[1, 2, 3]\<close> and \<open>p = 0\<close> that would give \<open>[2, 2, 3]\<close>; the code
  gives \<open>[7, 2, 3]\<close>.
\<close>

theorem restriction_then_correction_counterexample:
  "full_to_pressure_restriction True [1, 2, 3] [1, 1, 1] [0] 1 = Completed [6]
   \<and> add_coarse_pressure_correction True [6] [1, 2, 3] 0 1 = Completed [7, 2, 3]
   \<and> add_coarse_pressure_correction True [6] [1, 2, 3] 0 1 \<noteq> Completed [1 + 1, 2, 3]"
proof -
  have 1: "full_to_pressure_restriction True [1, 2, 3] [1, 1, 1] [0] 1 = Completed [6]"
    using full_to_pressure_restriction_result[of 1 "[1, 2, 3]" "[1, 1, 1]" "[0]"]
    by (simp add: restricted_def)
  have 2: "add_coarse_pressure_correction True [6] [1, 2, 3] 0 1 = Completed [7, 2, 3]"
    using add_coarse_pressure_correction_result[of 1 0 "[6]" "[1, 2, 3]"]
    by (simp add: upt_conv_Cons)
  show ?thesis using 1 2 by simp
qed

text \<open>
  C4, amended. With all weights 1, the restriction of \<open>fine\<close> holds for every block row
  the sum of the row's three entries, and adding it back at offset \<open>p < 3\<close> increments
  \<open>fine[3 * row + p]\<close> by that sum (the entry's own former value plus those of the two other
  entries of its block) and leaves every other entry as it was.
\<close>

theorem restriction_then_correction:
  assumes Nb: "0 \<le> Nb" "Nb \<le> 67108864" and p: "0 \<le> p" "p < 3"
    and len: "length fine = 3 * nat Nb" "length coarse = nat Nb" "length weights = 3 * nat Nb"
    and w: "\<forall>w\<in>set weights. w = 1"
  shows "full_to_pressure_restriction True fine weights coarse Nb =
           Completed (map (\<lambda>row. fine ! (3 * row) + fine ! (3 * row + 1) + fine ! (3 * row + 2))
                        [0..<nat Nb])
         \<and> add_coarse_pressure_correction True
             (map (\<lambda>row. fine ! (3 * row) + fine ! (3 * row + 1) + fine ! (3 * row + 2)) [0..<nat Nb])
             fine p Nb =
           Completed (map (\<lambda>j. if j mod 3 = nat p
                        then fine ! j + (fine ! (3 * (j div 3)) + fine ! (3 * (j div 3) + 1)
                                          + fine ! (3 * (j div 3) + 2))
                        else fine ! j) [0..<length fine])"
proof -
  let ?c = "map (\<lambda>row. fine ! (3 * row) + fine ! (3 * row + 1) + fine ! (3 * row + 2)) [0..<nat Nb]"
  have r: "restricted fine weights row = fine ! (3 * row) + fine ! (3 * row + 1) + fine ! (3 * row + 2)"
    if "row < nat Nb" for row
  proof -
    have "3 * row < length weights" "3 * row + 1 < length weights" "3 * row + 2 < length weights"
      using that len by simp_all
    then have "weights ! (3 * row) = 1" "weights ! (3 * row + 1) = 1" "weights ! (3 * row + 2) = 1"
      using w nth_mem by blast+
    then show ?thesis by (simp add: restricted_def)
  qed
  have "full_to_pressure_restriction True fine weights coarse Nb =
         Completed (map (\<lambda>row. if row < nat Nb then restricted fine weights row else coarse ! row)
                 [0..<length coarse])"
    using Nb len w by (intro full_to_pressure_restriction_result) simp_all
  also have "map (\<lambda>row. if row < nat Nb then restricted fine weights row else coarse ! row)
                 [0..<length coarse] = ?c"
    using len r by (intro nth_equalityI) simp_all
  finally have 1: "full_to_pressure_restriction True fine weights coarse Nb = Completed ?c" .
  have "add_coarse_pressure_correction True ?c fine p Nb =
         Completed (map (\<lambda>j. if j div 3 < nat Nb \<and> j mod 3 = nat p
                        then fine ! j + ?c ! (j div 3) else fine ! j)
                 [0..<length fine])"
    using Nb p len by (intro add_coarse_pressure_correction_result) simp_all
  also have "map (\<lambda>j. if j div 3 < nat Nb \<and> j mod 3 = nat p
                        then fine ! j + ?c ! (j div 3) else fine ! j) [0..<length fine]
      = map (\<lambda>j. if j mod 3 = nat p
                        then fine ! j + (fine ! (3 * (j div 3)) + fine ! (3 * (j div 3) + 1)
                                          + fine ! (3 * (j div 3) + 2))
                        else fine ! j) [0..<length fine]"
  proof (intro nth_equalityI)
    fix j assume "j < length (map (\<lambda>j. if j div 3 < nat Nb \<and> j mod 3 = nat p
                        then fine ! j + ?c ! (j div 3) else fine ! j) [0..<length fine])"
    then have j: "j < 3 * nat Nb" using len by simp
    then have d: "j div 3 < nat Nb" by simp
    show "map (\<lambda>j. if j div 3 < nat Nb \<and> j mod 3 = nat p
                        then fine ! j + ?c ! (j div 3) else fine ! j) [0..<length fine] ! j
      = map (\<lambda>j. if j mod 3 = nat p
                        then fine ! j + (fine ! (3 * (j div 3)) + fine ! (3 * (j div 3) + 1)
                                          + fine ! (3 * (j div 3) + 2))
                        else fine ! j) [0..<length fine] ! j"
      using j d len by simp
  qed simp
  finally show ?thesis using 1 by simp
qed

theorem restriction_then_correction_witness:
  "full_to_pressure_restriction True [1, 2, 3, 4, 5, 6] [1, 1, 1, 1, 1, 1] [0, 0] 2
     = Completed [6, 15]
   \<and> add_coarse_pressure_correction True [6, 15] [1, 2, 3, 4, 5, 6] 1 2
     = Completed [1, 8, 3, 4, 20, 6]"
  using restriction_then_correction[of 2 1 "[1, 2, 3, 4, 5, 6]" "[0, 0]" "[1, 1, 1, 1, 1, 1]"]
  by (simp add: upt_conv_Cons)

subsection \<open>C5: the restriction is the weighted sum over each block of three\<close>

text \<open>
  C5, as stated, is about every block-row count. The kernel computes the index
  \<open>3 * row + i\<close> in unsigned 32-bit arithmetic, so that for \<open>Nb = 1431655766\<close> block rows the
  last row, \<open>row = 1431655765\<close>, reads the entries \<open>2^32 - 1\<close>, \<open>0\<close> and \<open>1\<close> of the fine
  vector instead of \<open>2^32 - 1\<close>, \<open>2^32\<close> and \<open>2^32 + 1\<close>: with a fine vector that is 1 at
  entry 0 and 0 elsewhere, and weights 1, the sum over the block of that row is 0, and the
  kernel writes 1.
\<close>

theorem restriction_index_overflow_counterexample:
  "restricted (1 # replicate 4294967297 0) (replicate 4294967298 1) 1431655765 = 0
   \<and> restricted_wrapped (1 # replicate 4294967297 0) (replicate 4294967298 1) 1431655765 = 1
   \<and> full_to_pressure_restriction True (1 # replicate 4294967297 0) (replicate 4294967298 1)
         (replicate 1431655766 0) 1431655766
       \<noteq> Completed (map (restricted (1 # replicate 4294967297 0) (replicate 4294967298 1))
                      [0..<1431655766])"
proof -
  have r: "restricted (1 # replicate 4294967297 0) (replicate 4294967298 1) 1431655765 = 0"
    by (simp add: restricted_def)
  have w: "restricted_wrapped (1 # replicate 4294967297 0) (replicate 4294967298 1) 1431655765 = 1"
    by (simp add: restricted_wrapped_def wrap32_def)
  have "full_to_pressure_restriction True (1 # replicate 4294967297 0) (replicate 4294967298 1)
         (replicate 1431655766 0) 1431655766
       \<noteq> Completed (map (restricted (1 # replicate 4294967297 0) (replicate 4294967298 1))
                      [0..<1431655766])"
    by (rule restriction_index_overflow) (simp_all add: r)
  then show ?thesis using r w by simp
qed

text \<open>
  C5, amended. For every block-row count \<open>0 \<le> Nb \<le> 1431655765\<close> (the counts for which no
  index \<open>3 * row + i\<close> reaches \<open>2^32\<close>) and fine and weights vectors of at least \<open>3 * Nb\<close>
  entries, \<open>full_to_pressure_restriction\<close> writes into \<open>coarse_y[row]\<close>, for every
  \<open>row < Nb\<close>, the sum over the three entries \<open>i\<close> of the block of
  \<open>fine_y[row * 3 + i] * weights[row * 3 + i]\<close>, added to 0 in the order of \<open>i\<close>, and
  changes no other entry (the block size is the constant 3 of the kernel). For the single
  block \<open>[1, 2, 3]\<close> with weights 1 the coarse value is 6, and adding it at offset 0 to a
  zeroed fine vector gives \<open>[6, 0, 0]\<close>.
\<close>

theorem restriction_weighted_block_sum:
  assumes "0 \<le> Nb" "Nb \<le> 1431655765"
    and "3 * nat Nb \<le> length fine_y" "3 * nat Nb \<le> length weights" "nat Nb \<le> length coarse_y"
  shows "full_to_pressure_restriction True fine_y weights coarse_y Nb =
           Completed (map (\<lambda>row. if row < nat Nb
                                then 0 + fine_y ! (row * 3) * weights ! (row * 3)
                                       + fine_y ! (row * 3 + 1) * weights ! (row * 3 + 1)
                                       + fine_y ! (row * 3 + 2) * weights ! (row * 3 + 2)
                                else coarse_y ! row) [0..<length coarse_y])
         \<and> full_to_pressure_restriction True [1, 2, 3] [1, 1, 1] [0] 1 = Completed [6]
         \<and> add_coarse_pressure_correction True [6] [0, 0, 0] 0 1 = Completed [6, 0, 0]"
proof -
  have s: "(if row < nat Nb then restricted_wrapped fine_y weights row else coarse_y ! row)
           = (if row < nat Nb
              then 0 + fine_y ! (row * 3) * weights ! (row * 3)
                     + fine_y ! (row * 3 + 1) * weights ! (row * 3 + 1)
                     + fine_y ! (row * 3 + 2) * weights ! (row * 3 + 2)
              else coarse_y ! row)" for row
  proof (cases "row < nat Nb")
    case True
    then have "3 * row + 2 < 4294967296" using assms(2) by linarith
    then show ?thesis using True
      by (simp add: restricted_wrapped_eq restricted_def mult.commute)
  next
    case False
    then show ?thesis by simp
  qed
  have 0: "full_to_pressure_restriction True fine_y weights coarse_y Nb =
         Completed (map (\<lambda>row. if row < nat Nb then restricted_wrapped fine_y weights row
                               else coarse_y ! row) [0..<length coarse_y])"
    using assms by (intro full_to_pressure_restriction_wrapped_result) simp_all
  have 1: "full_to_pressure_restriction True [1, 2, 3] [1, 1, 1] [0] 1 = Completed [6]"
    using full_to_pressure_restriction_result[of 1 "[1, 2, 3]" "[1, 1, 1]" "[0]"]
    by (simp add: restricted_def)
  have 2: "add_coarse_pressure_correction True [6] [0, 0, 0] 0 1 = Completed [6, 0, 0]"
    using add_coarse_pressure_correction_result[of 1 0 "[6]" "[0, 0, 0]"]
    by (simp add: upt_conv_Cons)
  show ?thesis using 0 1 2 by (simp only: s simp_thms)
qed

theorem restriction_weighted_block_sum_witness:
  "full_to_pressure_restriction True [1, 2, 3, 4, 5, 6] [1, 0, 2, 1, 1, 1] [0, 0, 9] 2
     = Completed [7, 15, 9]"
  using restriction_weighted_block_sum[of 2 "[1, 2, 3, 4, 5, 6]" "[1, 0, 2, 1, 1, 1]" "[0, 0, 9]"]
  by (simp add: upt_conv_Cons)

subsection \<open>C6: the generic prolongation\<close>

text \<open>
  C6, as stated, is about every length. \<open>prolongate_vector\<close> launches
  \<open>ceilDivision N 64 * 64\<close> groups of 64 threads, and a thread computes its row
  \<open>blockDim.x * blockIdx.x + threadIdx.x\<close> in unsigned 32-bit arithmetic: for
  \<open>N = 2^26 + 1 = 67108865\<close> there are 67108928 groups, the threads of the group \<open>2^26\<close>
  and of those after it have the rows \<open>0, 1, \<dots>\<close> again, and these rows are added to twice.
  With the identity map, a coarse vector of ones and a fine vector of zeros the result is
  not the element-wise sum.
\<close>

theorem prolongate_vector_thread_index_overflow_counterexample:
  "prolongate_vector True (replicate 67108865 1) (replicate 67108865 0) (map int [0..<67108865]) 67108865
   \<noteq> Completed (map2 (+) (replicate 67108865 0) (replicate 67108865 1))"
proof -
  let ?inp = "replicate 67108865 (1::real)" and ?out = "replicate 67108865 (0::real)"
  let ?cols = "map int [0..<67108865]"
  have c: "?cols ! i = int i" if "i < 67108865" for i
    using that by (simp add: nth_map_upt del: upt_Suc)
  have "map (\<lambda>i. ?out ! i + ?inp ! nat (?cols ! i)) [0..<67108865] = map2 (+) ?out ?inp"
    by (intro nth_equalityI) (simp_all add: c del: upt_Suc)
  moreover have "prolongate_vector True ?inp ?out ?cols 67108865 \<noteq>
         Completed (map (\<lambda>i. ?out ! i + ?inp ! nat (?cols ! i)) [0..<67108865])"
    by (rule prolongate_vector_wrapped) (simp_all add: c del: upt_Suc)
  ultimately show ?thesis by simp
qed

text \<open>
  C6, amended. For every length \<open>0 \<le> N \<le> 2^26\<close> (the lengths for which the thread index
  of the launch stays below \<open>2^32\<close>) and a column map whose first \<open>N\<close> entries are indices
  of the coarse vector \<open>inp\<close>, \<open>prolongate_vector\<close> adds \<open>inp[cols[i]]\<close> to \<open>out[i]\<close> for
  every \<open>i < N\<close> and changes no other entry; with vectors of length \<open>N\<close> and the identity
  map the result is the element-wise sum of \<open>out\<close> and \<open>inp\<close>.
\<close>

theorem prolongate_vector_gather_add:
  assumes "0 \<le> N" "N \<le> 67108864"
    and "nat N \<le> length cols" "nat N \<le> length out"
    and "\<forall>i<nat N. 0 \<le> cols ! i \<and> nat (cols ! i) < length inp"
  shows "prolongate_vector True inp out cols N =
           Completed (map (\<lambda>i. if i < nat N then out ! i + inp ! nat (cols ! i) else out ! i)
                        [0..<length out])
         \<and> (length inp = nat N \<and> length out = nat N \<and> cols = map int [0..<nat N] \<longrightarrow>
              prolongate_vector True inp out cols N = Completed (map2 (+) out inp))"
proof -
  have 1: "prolongate_vector True inp out cols N =
           Completed (map (\<lambda>i. if i < nat N then out ! i + inp ! nat (cols ! i) else out ! i)
                        [0..<length out])"
    using assms by (intro prolongate_vector_result) simp_all
  have 2: "map (\<lambda>i. if i < nat N then out ! i + inp ! nat (cols ! i) else out ! i) [0..<length out]
           = map2 (+) out inp"
    if "length inp = nat N" "length out = nat N" "cols = map int [0..<nat N]"
    using that by (intro nth_equalityI) simp_all
  show ?thesis
  proof (intro conjI impI)
    show "prolongate_vector True inp out cols N =
           Completed (map (\<lambda>i. if i < nat N then out ! i + inp ! nat (cols ! i) else out ! i)
                        [0..<length out])" by (rule 1)
  next
    assume "length inp = nat N \<and> length out = nat N \<and> cols = map int [0..<nat N]"
    then show "prolongate_vector True inp out cols N = Completed (map2 (+) out inp)"
      using 1 2 by simp
  qed
qed

theorem prolongate_vector_gather_add_witness:
  "prolongate_vector True [10, 20] [1, 2, 3, 4] [1, 1, 0] 3 = Completed [21, 22, 13, 4]
   \<and> prolongate_vector True [10, 20, 30] [1, 2, 3] [0, 1, 2] 3 = Completed [11, 22, 33]"
proof -
  have a: "\<forall>i<nat 3. 0 \<le> [1, 1, 0::int] ! i \<and> nat ([1, 1, 0] ! i) < length [10, 20::real]"
    by (auto simp: less_Suc_eq numeral_3_eq_3)
  have b: "\<forall>i<nat 3. 0 \<le> [0, 1, 2::int] ! i \<and> nat ([0, 1, 2] ! i) < length [10, 20, 30::real]"
    by (auto simp: less_Suc_eq numeral_3_eq_3)
  show ?thesis
    using prolongate_vector_gather_add[of 3 "[1, 1, 0]" "[1, 2, 3, 4]" "[10, 20]"]
      prolongate_vector_gather_add[of 3 "[0, 1, 2]" "[1, 2, 3]" "[10, 20, 30]"] a b
    by (simp add: upt_conv_Cons)
qed

subsection \<open>C7: the fused multiply-accumulate\<close>

text \<open>
  C7, as stated, is about every length. \<open>vmul\<close> launches \<open>ceilDivision N 64 * 64\<close> groups
  of 64 threads, and \<open>vmul_k\<close> keeps the index of a thread in an \<^verbatim>\<open>int\<close>: for
  \<open>N = 2^25 + 1 = 33554433\<close> there are 33554496 groups, the first thread of the group
  \<open>2^25\<close> has the index \<open>64 * 2^25 = 2^31\<close>, which is \<open>- 2^31\<close> as an \<^verbatim>\<open>int\<close> and below
  \<open>N\<close>, and the thread reads \<open>in1[- 2^31]\<close>. The behaviour is undefined whatever the
  vectors; here they are vectors of 33554433 ones and zeros.
\<close>

theorem vmul_index_overflow_counterexample:
  "vmul True 1 (replicate 33554433 1) (replicate 33554433 1) (replicate 33554433 0) 33554433
   = Undefined"
  by (rule vmul_index_overflow)

text \<open>
  C7, amended. For every length \<open>0 \<le> N \<le> 2^25\<close> (the lengths for which no thread index
  of the launch leaves the range of a 32-bit \<^verbatim>\<open>int\<close>) and arrays of at least \<open>N\<close>
  entries, \<open>vmul\<close> replaces \<open>out[i]\<close> by \<open>out[i] + alpha * in1[i] * in2[i]\<close> for every
  \<open>i < N\<close> and leaves every other entry of \<open>out\<close> as it was; with \<open>alpha = 0\<close> and finite
  entries of \<open>in1\<close> and \<open>in2\<close> (the entries are real numbers here: a \<^verbatim>\<open>double\<close> that is
  infinite or NaN would make \<open>0 * in1[i] * in2[i]\<close> NaN) the array \<open>out\<close> is unchanged.
\<close>

theorem vmul_fused_multiply_accumulate:
  assumes "0 \<le> N" "N \<le> 33554432"
    and "nat N \<le> length in1" "nat N \<le> length in2" "nat N \<le> length out"
  shows "vmul True alpha in1 in2 out N =
           Completed (map (\<lambda>i. if i < nat N then out ! i + alpha * in1 ! i * in2 ! i else out ! i)
                   [0..<length out])
         \<and> vmul True 0 in1 in2 out N = Completed out"
proof -
  have "map (\<lambda>i. if i < nat N then out ! i + 0 * in1 ! i * in2 ! i else out ! i) [0..<length out]
        = out"
    by (intro nth_equalityI) simp_all
  then show ?thesis using vmul_result[OF assms] by simp
qed

theorem vmul_fused_multiply_accumulate_witness:
  "vmul True 2 [1, 2, 3] [3, 4, 5] [10, 20, 30] 2 = Completed [16, 36, 30]
   \<and> vmul True 0 [1, 2, 3] [3, 4, 5] [10, 20, 30] 2 = Completed [10, 20, 30]"
  using vmul_fused_multiply_accumulate[of 2 "[1, 2, 3]" "[3, 4, 5]" "[10, 20, 30]" 2]
  by (simp add: upt_conv_Cons)


subsection \<open>C8: the launch configuration\<close>

text \<open>
  C8, as stated, makes the result of a grid-stride kernel the same for every two positive
  numbers of thread groups. Every thread of the \<open>gridDim * blockDim\<close> threads starts at its
  global index and advances by \<open>gridDim\<close>, so with fewer groups than indices an index is
  visited by several threads: one group of 64 threads adds to \<open>out[1]\<close> twice, two groups
  add once.
\<close>

theorem grid_stride_launch_counterexample:
  "vmul_k 1 64 1 [1, 1] [1, 1] [0, 0] 2 = Some [1, 2]
   \<and> vmul_k 2 64 1 [1, 1] [1, 1] [0, 0] 2 = Some [1, 1]
   \<and> vmul_k 1 64 1 [1, 1] [1, 1] [0, 0] 2 \<noteq> vmul_k 2 64 1 [1, 1] [1, 1] [0, 0] 2"
proof -
  have 1: "vmul_k 1 64 1 [1, 1] [1, 1] [0, 0] 2 = Some [1, 2]"
    by (simp add: vmul_k_def grid_def vmul_k_thread_def global_id_def wrap32_def s32_def u32_def
        while_loop.simps rdi_def wri_def rd_def wr_def upt_conv_Cons)
  have 2: "vmul_k 2 64 1 [1, 1] [1, 1] [0, 0] 2 = Some [1, 1]"
    using vmul_k_result[of 2 2 64 "[1, 1]" "[1, 1]" "[0, 0]" 1] by (simp add: upt_conv_Cons)
  show ?thesis using 1 2 by simp
qed

text \<open>
  C8, amended. For every two launch configurations, of \<open>P\<close> groups of \<open>B > 0\<close> threads and
  of \<open>P'\<close> groups of \<open>B' > 0\<close> threads, that have at least as many groups as there are
  indices, \<open>N \<le> P\<close> and \<open>N \<le> P'\<close> (the host functions always launch
  \<open>ceilDivision N 64 * 64 \<ge> N\<close> groups), at most \<open>2^30\<close> groups, \<open>P \<le> 2^30\<close> and
  \<open>P' \<le> 2^30\<close>, and at most \<open>2^31\<close> threads, \<open>P * B \<le> 2^31\<close> and \<open>P' * B' \<le> 2^31\<close>, and
  for every valid input (arrays of at least \<open>N\<close> entries, \<open>3 * N\<close> for the fine vectors, a
  pressure offset below 3, a column map into the coarse vector), each of the four
  grid-stride kernels gives the same output under both, namely the one in which every
  index below \<open>N\<close> has been processed exactly once.
\<close>

theorem grid_stride_launch_independent:
  assumes c1: "0 < B" "N \<le> P" "P \<le> 1073741824" "P * B \<le> 2147483648"
    and c2: "0 < B'" "N \<le> P'" "P' \<le> 1073741824" "P' * B' \<le> 2147483648"
    and v: "N \<le> length in1" "N \<le> length in2" "N \<le> length out"
    and r: "3 * N \<le> length fine_y" "3 * N \<le> length weights" "N \<le> length coarse_y"
    and a: "p < 3" "N \<le> length coarse_x" "3 * N \<le> length fine_x"
    and g: "N \<le> length cols" "N \<le> length out'"
       "\<forall>i<N. 0 \<le> cols ! i \<and> nat (cols ! i) < length inp"
  shows "vmul_k P B alpha in1 in2 out (int N) = vmul_k P' B' alpha in1 in2 out (int N)
       \<and> vmul_k P B alpha in1 in2 out (int N) =
           Some (map (\<lambda>i. if i < N then out ! i + alpha * in1 ! i * in2 ! i else out ! i)
                   [0..<length out])
       \<and> full_to_pressure_restriction_k P B fine_y weights coarse_y N =
           full_to_pressure_restriction_k P' B' fine_y weights coarse_y N
       \<and> full_to_pressure_restriction_k P B fine_y weights coarse_y N =
           Some (map (\<lambda>row. if row < N then restricted fine_y weights row else coarse_y ! row)
                   [0..<length coarse_y])
       \<and> add_coarse_pressure_correction_k P B coarse_x fine_x p N =
           add_coarse_pressure_correction_k P' B' coarse_x fine_x p N
       \<and> add_coarse_pressure_correction_k P B coarse_x fine_x p N =
           Some (map (\<lambda>j. if j div 3 < N \<and> j mod 3 = p
                          then fine_x ! j + coarse_x ! (j div 3) else fine_x ! j)
                   [0..<length fine_x])
       \<and> prolongate_vector_k P B inp out' cols N = prolongate_vector_k P' B' inp out' cols N
       \<and> prolongate_vector_k P B inp out' cols N =
           Some (map (\<lambda>i. if i < N then out' ! i + inp ! nat (cols ! i) else out' ! i)
                   [0..<length out'])"
proof -
  have b1: "N + P \<le> 2147483648" "3 * N \<le> 4294967296" "P * B \<le> 4294967296"
       "int N + int P \<le> 2147483648" "N + P \<le> 4294967296"
    using c1 by simp_all
  have b2: "N + P' \<le> 2147483648" "P' * B' \<le> 4294967296"
       "int N + int P' \<le> 2147483648" "N + P' \<le> 4294967296"
    using c2 by simp_all
  have v1: "vmul_k P B alpha in1 in2 out (int N) =
           Some (map (\<lambda>i. if i < N then out ! i + alpha * in1 ! i * in2 ! i else out ! i)
                   [0..<length out])"
    using vmul_k_result[of "int N" P B in1 in2 out alpha] c1 b1 v by simp
  have v2: "vmul_k P' B' alpha in1 in2 out (int N) =
           Some (map (\<lambda>i. if i < N then out ! i + alpha * in1 ! i * in2 ! i else out ! i)
                   [0..<length out])"
    using vmul_k_result[of "int N" P' B' in1 in2 out alpha] c2 b2 v by simp
  have r1: "full_to_pressure_restriction_k P B fine_y weights coarse_y N =
           Some (map (\<lambda>row. if row < N then restricted fine_y weights row else coarse_y ! row)
                   [0..<length coarse_y])"
    using c1 b1 r by (intro full_to_pressure_restriction_k_result) simp_all
  have r2: "full_to_pressure_restriction_k P' B' fine_y weights coarse_y N =
           Some (map (\<lambda>row. if row < N then restricted fine_y weights row else coarse_y ! row)
                   [0..<length coarse_y])"
    using c2 b1 b2 r by (intro full_to_pressure_restriction_k_result) simp_all
  have a1: "add_coarse_pressure_correction_k P B coarse_x fine_x p N =
           Some (map (\<lambda>j. if j div 3 < N \<and> j mod 3 = p
                          then fine_x ! j + coarse_x ! (j div 3) else fine_x ! j)
                   [0..<length fine_x])"
    using c1 b1 a by (intro add_coarse_pressure_correction_k_result) simp_all
  have a2: "add_coarse_pressure_correction_k P' B' coarse_x fine_x p N =
           Some (map (\<lambda>j. if j div 3 < N \<and> j mod 3 = p
                          then fine_x ! j + coarse_x ! (j div 3) else fine_x ! j)
                   [0..<length fine_x])"
    using c2 b1 b2 a by (intro add_coarse_pressure_correction_k_result) simp_all
  have g1: "prolongate_vector_k P B inp out' cols N =
           Some (map (\<lambda>i. if i < N then out' ! i + inp ! nat (cols ! i) else out' ! i)
                   [0..<length out'])"
    using c1 b1 g by (intro prolongate_vector_k_result) simp_all
  have g2: "prolongate_vector_k P' B' inp out' cols N =
           Some (map (\<lambda>i. if i < N then out' ! i + inp ! nat (cols ! i) else out' ! i)
                   [0..<length out'])"
    using c2 b2 g by (intro prolongate_vector_k_result) simp_all
  show ?thesis unfolding v1 v2 r1 r2 a1 a2 g1 g2 by simp
qed

theorem grid_stride_launch_independent_witness:
  "vmul_k 2 64 2 [1, 2] [3, 4] [10, 20] 2 = vmul_k 64 2 2 [1, 2] [3, 4] [10, 20] 2
   \<and> vmul_k 2 64 2 [1, 2] [3, 4] [10, 20] 2 = Some [16, 36]
   \<and> full_to_pressure_restriction_k 2 64 [1, 2, 3, 4, 5, 6] [1, 1, 1, 1, 1, 1] [0, 0] 2
       = full_to_pressure_restriction_k 64 2 [1, 2, 3, 4, 5, 6] [1, 1, 1, 1, 1, 1] [0, 0] 2
   \<and> full_to_pressure_restriction_k 2 64 [1, 2, 3, 4, 5, 6] [1, 1, 1, 1, 1, 1] [0, 0] 2
       = Some [6, 15]
   \<and> add_coarse_pressure_correction_k 2 64 [6, 15] [1, 2, 3, 4, 5, 6] 1 2
       = add_coarse_pressure_correction_k 64 2 [6, 15] [1, 2, 3, 4, 5, 6] 1 2
   \<and> add_coarse_pressure_correction_k 2 64 [6, 15] [1, 2, 3, 4, 5, 6] 1 2
       = Some [1, 8, 3, 4, 20, 6]
   \<and> prolongate_vector_k 2 64 [10, 20] [1, 2, 3] [1, 0] 2
       = prolongate_vector_k 64 2 [10, 20] [1, 2, 3] [1, 0] 2
   \<and> prolongate_vector_k 2 64 [10, 20] [1, 2, 3] [1, 0] 2 = Some [21, 12, 3]"
proof -
  have c: "\<forall>i<2. 0 \<le> [1, 0::int] ! i \<and> nat ([1, 0] ! i) < length [10, 20::real]"
    by (auto simp: less_Suc_eq numeral_2_eq_2)
  have "map (\<lambda>i. if i < 2 then [10, 20] ! i + 2 * [1, 2] ! i * [3, 4] ! i else [10, 20] ! i)
          [0..<length [10, 20::real]] = [16, 36::real]"
       "map (\<lambda>row. if row < 2 then restricted [1, 2, 3, 4, 5, 6] [1, 1, 1, 1, 1, 1] row
                      else [0, 0] ! row) [0..<length [0, 0::real]] = [6, 15]"
       "map (\<lambda>j. if j div 3 < 2 \<and> j mod 3 = 1
                    then [1, 2, 3, 4, 5, 6] ! j + [6, 15] ! (j div 3) else [1, 2, 3, 4, 5, 6] ! j)
          [0..<length [1, 2, 3, 4, 5, 6::real]] = [1, 8, 3, 4, 20, 6::real]"
       "map (\<lambda>i. if i < 2 then [1, 2, 3] ! i + [10, 20] ! nat ([1, 0] ! i) else [1, 2, 3] ! i)
          [0..<length [1, 2, 3::real]] = [21, 12, 3::real]"
    by (simp_all add: upt_conv_Cons restricted_def)
  then show ?thesis
    using grid_stride_launch_independent[of 64 2 2 2 64 "[1, 2]" "[3, 4]" "[10, 20]"
      "[1, 2, 3, 4, 5, 6]" "[1, 1, 1, 1, 1, 1]" "[0, 0]" 1 "[6, 15]" "[1, 2, 3, 4, 5, 6]"
      "[1, 0]" "[1, 2, 3]" "[10, 20]" 2] c
    by auto
qed

subsection \<open>C9: compiled without device support\<close>

text \<open>
  C9. When the file is compiled without \<^verbatim>\<open>__HIP__\<close>, each of the six host functions
  throws at once a \<^verbatim>\<open>std::logic_error\<close> whose message names the function, and the output
  array is as it was.
\<close>

theorem no_device_support_raises:
  "vmul False alpha in1 in2 out N =
     Raised ''Error vmul for rocsparse only supported when compiling with hipcc'' out
   \<and> full_to_pressure_restriction False fine_y weights coarse_y Nb =
     Raised ''Error full_to_pressure_restriction for rocsparse only supported when compiling with hipcc''
       coarse_y
   \<and> add_coarse_pressure_correction False coarse_x fine_x pressure_idx Nb =
     Raised ''Error add_coarse_pressure_correction for rocsparse only supported when compiling with hipcc''
       fine_x
   \<and> prolongate_vector False inp out cols N =
     Raised ''Error prolongate_vector for rocsparse only supported when compiling with hipcc'' out
   \<and> residual False warpSize vals cols' rows x rhs out Nb block_size =
     Raised ''Error residual for rocsparse only supported when compiling with hipcc'' out
   \<and> spmv False vals cols' rows x y Nb block_size =
     Raised ''Error spmv for rocsparse only supported when compiling with hipcc'' y"
  by (simp add: vmul_def full_to_pressure_restriction_def add_coarse_pressure_correction_def
        prolongate_vector_def residual_def spmv_def)

subsection \<open>C10: the block size 3 of the pressure kernels\<close>

text \<open>
  C10, as stated, is about every call. The restriction computes the index \<open>3 * row + i\<close> in
  unsigned 32-bit arithmetic, so that for \<open>Nb = 1431655766\<close> block rows the last row,
  \<open>row = 1431655765\<close>, does not sum the three entries \<open>3 * row\<close>, \<open>3 * row + 1\<close>,
  \<open>3 * row + 2\<close> of the fine vector but the entries \<open>2^32 - 1\<close>, \<open>0\<close> and \<open>1\<close>: with a fine
  vector that is 1 at entry 1 and 0 elsewhere, and weights 2, the three entries of that
  row with their weights sum to 0, and the kernel writes 2.
\<close>

theorem restriction_block_entries_counterexample:
  "restricted (0 # 1 # replicate 4294967296 0) (replicate 4294967298 2) 1431655765 = 0
   \<and> restricted_wrapped (0 # 1 # replicate 4294967296 0) (replicate 4294967298 2) 1431655765 = 2
   \<and> full_to_pressure_restriction True (0 # 1 # replicate 4294967296 0) (replicate 4294967298 2)
         (replicate 1431655766 0) 1431655766
       \<noteq> Completed (map (restricted (0 # 1 # replicate 4294967296 0) (replicate 4294967298 2))
                      [0..<1431655766])"
proof -
  have r: "restricted (0 # 1 # replicate 4294967296 0) (replicate 4294967298 2) 1431655765 = 0"
    by (simp add: restricted_def)
  have w: "restricted_wrapped (0 # 1 # replicate 4294967296 0) (replicate 4294967298 2) 1431655765 = 2"
    by (simp add: restricted_wrapped_def wrap32_def)
  have "full_to_pressure_restriction True (0 # 1 # replicate 4294967296 0) (replicate 4294967298 2)
         (replicate 1431655766 0) 1431655766
       \<noteq> Completed (map (restricted (0 # 1 # replicate 4294967296 0) (replicate 4294967298 2))
                      [0..<1431655766])"
    by (rule restriction_index_overflow) (simp_all add: r)
  then show ?thesis using r w by simp
qed

text \<open>
  C10, amended. The two operations have no block size among their arguments; the block
  size 3 is a constant of their kernels. For every call of \<open>full_to_pressure_restriction\<close>
  with \<open>0 \<le> Nb \<le> 1431655765\<close> block rows, the operation sums for each block row \<open>row\<close>
  exactly the three products of the entries \<open>3 * row\<close>, \<open>3 * row + 1\<close>, \<open>3 * row + 2\<close> of the
  fine vector with their weights. For every call of \<open>add_coarse_pressure_correction\<close> with
  \<open>0 \<le> Nc \<le> 2^26\<close> block rows and a pressure offset \<open>p \<ge> 0\<close>, below 3 or not, such that the
  entries \<open>3 * row + p\<close> exist and \<open>3 * Nc + p \<le> 2^32\<close>, the operation adds \<open>coarse_x[row]\<close>
  to exactly the entries \<open>3 * row + p\<close> of the fine vector. Neither is right for a fine
  vector of blocks of another size \<open>bs\<close>: on one block of \<open>bs\<close> ones with weights 1 the
  restriction does not give the sum \<open>bs\<close> of the block (it gives 3, or reads beyond the
  block), and on two blocks of \<open>bs\<close> zeros the correction of \<open>[1, 1]\<close> at offset 0 does not
  give the vector with 1 at the entries 0 and \<open>bs\<close> (it writes the entries 0 and 3).
\<close>

theorem pressure_operations_block_size_three:
  assumes "0 \<le> Nb" "Nb \<le> 1431655765"
    and "3 * nat Nb \<le> length fine_y" "3 * nat Nb \<le> length weights" "nat Nb \<le> length coarse_y"
    and "0 \<le> Nc" "Nc \<le> 67108864" "0 \<le> p" "3 * nat Nc + nat p \<le> 4294967296"
    and "nat Nc \<le> length coarse_x" "\<forall>row<nat Nc. 3 * row + nat p < length fine_x"
    and "bs \<noteq> 3" "0 < bs"
  shows "full_to_pressure_restriction True fine_y weights coarse_y Nb =
           Completed (map (\<lambda>row. if row < nat Nb
                        then 0 + fine_y ! (3 * row) * weights ! (3 * row)
                               + fine_y ! (3 * row + 1) * weights ! (3 * row + 1)
                               + fine_y ! (3 * row + 2) * weights ! (3 * row + 2)
                        else coarse_y ! row) [0..<length coarse_y])
         \<and> add_coarse_pressure_correction True coarse_x fine_x p Nc =
           Completed (map (\<lambda>j. if nat p \<le> j \<and> (j - nat p) mod 3 = 0 \<and> (j - nat p) div 3 < nat Nc
                        then fine_x ! j + coarse_x ! ((j - nat p) div 3)
                        else fine_x ! j) [0..<length fine_x])
         \<and> full_to_pressure_restriction True (replicate bs 1) (replicate bs 1) [0] 1
             \<noteq> Completed [real bs]
         \<and> add_coarse_pressure_correction True [1, 1] (replicate (2 * bs) 0) 0 2
             \<noteq> Completed ((replicate (2 * bs) 0)[0 := 1, bs := 1])"
proof -
  have s: "(if row < nat Nb then restricted_wrapped fine_y weights row else coarse_y ! row)
           = (if row < nat Nb
              then 0 + fine_y ! (3 * row) * weights ! (3 * row)
                     + fine_y ! (3 * row + 1) * weights ! (3 * row + 1)
                     + fine_y ! (3 * row + 2) * weights ! (3 * row + 2)
              else coarse_y ! row)" for row
  proof (cases "row < nat Nb")
    case True
    then have "3 * row + 2 < 4294967296" using assms(2) by linarith
    then show ?thesis using True by (simp add: restricted_wrapped_eq restricted_def)
  next
    case False
    then show ?thesis by simp
  qed
  have 1: "full_to_pressure_restriction True fine_y weights coarse_y Nb =
         Completed (map (\<lambda>row. if row < nat Nb then restricted_wrapped fine_y weights row
                               else coarse_y ! row) [0..<length coarse_y])"
    using assms by (intro full_to_pressure_restriction_wrapped_result) simp_all
  have 2: "add_coarse_pressure_correction True coarse_x fine_x p Nc =
           Completed (map (\<lambda>j. if nat p \<le> j \<and> (j - nat p) mod 3 = 0 \<and> (j - nat p) div 3 < nat Nc
                        then fine_x ! j + coarse_x ! ((j - nat p) div 3)
                        else fine_x ! j) [0..<length fine_x])"
    by (rule add_coarse_pressure_correction_offset[OF assms(6,7,8,10,11,9)])
  have 3: "full_to_pressure_restriction True (replicate bs 1) (replicate bs 1) [0] 1
             \<noteq> Completed [real bs]"
    using assms(12,13) by (rule restriction_other_block_size)
  have 4: "add_coarse_pressure_correction True [1, 1] (replicate (2 * bs) 0) 0 2
             \<noteq> Completed ((replicate (2 * bs) 0)[0 := 1, bs := 1])"
    using assms(12,13) by (rule correction_other_block_size)
  show ?thesis using 1 2 3 4 by (simp only: s simp_thms)
qed

theorem pressure_operations_block_size_three_witness:
  "full_to_pressure_restriction True [1, 2, 3, 4, 5, 6, 7, 8] [1, 1, 1, 1, 1, 1, 1, 1] [0, 0] 2
     = Completed [6, 15]
   \<and> add_coarse_pressure_correction True [10, 20] [1, 2, 3, 4, 5, 6, 7, 8] 4 2
     = Completed [1, 2, 3, 4, 15, 6, 7, 28]
   \<and> full_to_pressure_restriction True (replicate 4 1) (replicate 4 1) [0] 1 \<noteq> Completed [4]
   \<and> add_coarse_pressure_correction True [1, 1] (replicate (2 * 4) 0) 0 2
       \<noteq> Completed ((replicate (2 * 4) 0)[0 := 1, 4 := 1])"
proof -
  have a: "\<forall>row<nat 2. 3 * row + nat 4 < length [1, 2, 3, 4, 5, 6, 7, 8::real]"
    by (auto simp: less_Suc_eq numeral_2_eq_2)
  have m: "map (\<lambda>row. if row < nat 2
                        then 0 + [1, 2, 3, 4, 5, 6, 7, 8] ! (3 * row) * [1, 1, 1, 1, 1, 1, 1, 1] ! (3 * row)
                               + [1, 2, 3, 4, 5, 6, 7, 8] ! (3 * row + 1) * [1, 1, 1, 1, 1, 1, 1, 1] ! (3 * row + 1)
                               + [1, 2, 3, 4, 5, 6, 7, 8] ! (3 * row + 2) * [1, 1, 1, 1, 1, 1, 1, 1] ! (3 * row + 2)
                        else [0, 0] ! row) [0..<length [0, 0::real]] = [6, 15::real]"
    "map (\<lambda>j. if nat 4 \<le> j \<and> (j - nat 4) mod 3 = 0 \<and> (j - nat 4) div 3 < nat 2
                        then [1, 2, 3, 4, 5, 6, 7, 8] ! j + [10, 20] ! ((j - nat 4) div 3)
                        else [1, 2, 3, 4, 5, 6, 7, 8] ! j) [0..<length [1, 2, 3, 4, 5, 6, 7, 8::real]]
     = [1, 2, 3, 4, 15, 6, 7, 28::real]"
    by (simp_all add: upt_conv_Cons)
  have "real 4 = 4" by simp
  then show ?thesis
    using pressure_operations_block_size_three[of 2 "[1, 2, 3, 4, 5, 6, 7, 8]" "[1, 1, 1, 1, 1, 1, 1, 1]"
      "[0, 0]" 2 4 "[10, 20]" "[1, 2, 3, 4, 5, 6, 7, 8]" 4] a
    by (simp only: m) simp
qed


end
